theory Spec2Isabelle
  imports Complex_Main "HOL-Library.Multiset"
begin

section \<open>Data model of tournament.py\<close>

text \<open>
  The source is Python 2: \<^verbatim>\<open>filter\<close> returns a list, and a class that defines
  \<^verbatim>\<open>__eq__\<close> keeps the identity hash, so participants can be dictionary keys.

  A \<^verbatim>\<open>Participant\<close> object is identified with its \<^verbatim>\<open>id\<close>: \<^verbatim>\<open>__eq__\<close> compares
  ids, and the tournaments are given participants with one object per id. The mutable
  attributes of the objects live in a heap indexed by id. \<^verbatim>\<open>BY\<close> is the module-level
  object \<^verbatim>\<open>Participant("BY")\<close>; its attributes live in the same heap.
\<close>

type_synonym pid = string

definition BY :: pid where
  "BY = ''BY''"

text \<open>
  A \<^verbatim>\<open>Match\<close> object is referred to by the position at which its tournament
  constructed it (the model's stand-in for \<^verbatim>\<open>uuid\<close> and object identity).
\<close>

type_synonym mref = nat

record participant =
  current_match :: "mref option"
  match_history :: "mref list"
  tournament_score :: int
  score :: "int option"

definition Participant :: participant where
  "Participant =
     \<lparr>current_match = None, match_history = [], tournament_score = 0, score = None\<rparr>"

text \<open>What \<^verbatim>\<open>report_result\<close> is given: \<^verbatim>\<open>Match.TIE\<close> or a participant.\<close>

datatype winner = TIE | Won pid

text \<open>
  The attribute \<^verbatim>\<open>score\<close> of a participant does not exist until the elimination
  format's seeding assigns it. \<^verbatim>\<open>home\<close>, \<^verbatim>\<open>away\<close>, \<^verbatim>\<open>winner\<close> of a match are
  \<^verbatim>\<open>None\<close> until assigned; \<^verbatim>\<open>loser\<close> is written by \<^verbatim>\<open>report_result\<close> only. The attribute \<^verbatim>\<open>state\<close> is never written after
  construction and is left out.
\<close>

record match =
  home :: "pid option"
  away :: "pid option"
  winner :: "winner option"
  loser :: "winner option"

definition Match :: "pid option \<Rightarrow> pid option \<Rightarrow> match" where
  "Match h a = \<lparr>home = h, away = a, winner = None, loser = None\<rparr>"

definition active :: "match \<Rightarrow> bool" where
  "active m \<longleftrightarrow> home m \<noteq> None \<and> away m \<noteq> None \<and> winner m = None"

definition is_complete :: "match \<Rightarrow> bool" where
  "is_complete m \<longleftrightarrow> winner m \<noteq> None"

text \<open>
  \<^verbatim>\<open>trigger_event\<close> runs the handlers the caller registered. The handlers are the
  caller's code; the model records which event was fired, in order, and takes the
  handlers to return without touching the tournament.
\<close>

datatype event =
  on_start | on_match_ready mref | on_match_complete mref | on_start_round | on_complete

datatype error = IndexError | ValueError | AttributeError | KeyError

text \<open>
  An operation either returns with the new state (\<open>Inr\<close>) or raises, and then the
  objects stay as they were at the raise (\<open>Inl\<close> with that state).
\<close>

type_synonym 's result = "(error \<times> 's) + 's"

definition state_of :: "'s result \<Rightarrow> 's" where
  "state_of r = (case r of Inl (e, s) \<Rightarrow> s | Inr s \<Rightarrow> s)"

record tournament =
  participants :: "pid list"
  players :: "pid \<Rightarrow> participant"
  store :: "match list"
  matches :: "mref list"
  events :: "event list"
  num_players :: "nat option"

section \<open>Participant and the base class Tournament\<close>

definition set_current_match ::
  "pid \<Rightarrow> mref \<Rightarrow> 'a tournament_scheme \<Rightarrow> 'a tournament_scheme" where
  "set_current_match p m s =
     s\<lparr>players := (players s)(p := (players s p)
         \<lparr>current_match := Some m, match_history := match_history (players s p) @ [m]\<rparr>)\<rparr>"

definition trigger_event :: "event \<Rightarrow> 'a tournament_scheme \<Rightarrow> 'a tournament_scheme" where
  "trigger_event e s = s\<lparr>events := events s @ [e]\<rparr>"

definition add_score :: "pid \<Rightarrow> int \<Rightarrow> 'a tournament_scheme \<Rightarrow> 'a tournament_scheme" where
  "add_score p k s =
     s\<lparr>players := (players s)(p := (players s p)
         \<lparr>tournament_score := tournament_score (players s p) + k\<rparr>)\<rparr>"

definition calc_match_points :: "mref \<Rightarrow> 'a tournament_scheme \<Rightarrow> 'a tournament_scheme result" where
  "calc_match_points m s =
     (case winner (store s ! m) of
        None \<Rightarrow> Inl (AttributeError, s)
      | Some TIE \<Rightarrow>
          (case home (store s ! m) of
             None \<Rightarrow> Inl (AttributeError, s)
           | Some h \<Rightarrow>
               (case away (store s ! m) of
                  None \<Rightarrow> Inl (AttributeError, add_score h 1 s)
                | Some a \<Rightarrow> Inr (add_score a 1 (add_score h 1 s))))
      | Some (Won w) \<Rightarrow>
          (case loser (store s ! m) of
             Some (Won l) \<Rightarrow> Inr (add_score l 0 (add_score w 3 s))
           | _ \<Rightarrow> Inl (AttributeError, add_score w 3 s)))"

text \<open>
  \<^verbatim>\<open>handle_match_result\<close> calls the subclass's \<^verbatim>\<open>process_match_result\<close>; the model
  takes that method as the parameter \<open>process\<close>.
\<close>

definition handle_match_result ::
  "(mref \<Rightarrow> 'a tournament_scheme \<Rightarrow> 'a tournament_scheme result) \<Rightarrow>
   mref \<Rightarrow> 'a tournament_scheme \<Rightarrow> 'a tournament_scheme result" where
  "handle_match_result process m s =
     (case calc_match_points m s of
        Inl e \<Rightarrow> Inl e
      | Inr s1 \<Rightarrow> process m (trigger_event (on_match_complete m) s1))"

definition report_result ::
  "(mref \<Rightarrow> 'a tournament_scheme \<Rightarrow> 'a tournament_scheme result) \<Rightarrow>
   mref \<Rightarrow> winner \<Rightarrow> 'a tournament_scheme \<Rightarrow> 'a tournament_scheme result" where
  "report_result process m w s =
     (let mt = store s ! m;
          l = (case w of
                 TIE \<Rightarrow> Some TIE
               | Won p \<Rightarrow> if home mt = Some p then map_option Won (away mt)
                          else map_option Won (home mt))
      in handle_match_result process m
           (s\<lparr>store := (store s)[m := mt\<lparr>winner := Some w, loser := l\<rparr>]\<rparr>))"

text \<open>
  \<^verbatim>\<open>sorted(self.participants, key=..., reverse=True)\<close>: Python's sort is stable, also
  with \<^verbatim>\<open>reverse=True\<close>. \<open>sort_key\<close> is the stable insertion sort of the library;
  the descending order is the ascending order of the negated score. Like every
  method of the model it returns its value together with the state it leaves.
\<close>

definition get_players_by_rank ::
  "'a tournament_scheme \<Rightarrow> pid list \<times> 'a tournament_scheme" where
  "get_players_by_rank s =
     (sort_key (\<lambda>p. - tournament_score (players s p)) (participants s), s)"

definition active_matches :: "'a tournament_scheme \<Rightarrow> mref list" where
  "active_matches s = filter (\<lambda>m. active (store s ! m)) (matches s)"

definition completed_matches :: "'a tournament_scheme \<Rightarrow> mref list" where
  "completed_matches s = filter (\<lambda>m. is_complete (store s ! m)) (matches s)"

definition reset_scores :: "pid list \<Rightarrow> (pid \<Rightarrow> participant) \<Rightarrow> (pid \<Rightarrow> participant)" where
  "reset_scores ps pl = fold (\<lambda>p h. h(p := (h p)\<lparr>tournament_score := 0\<rparr>)) ps pl"

text \<open>
  \<^verbatim>\<open>start\<close>: \<^verbatim>\<open>order_players_by_initial_rank\<close> does nothing in either format; the
  subclass's \<^verbatim>\<open>seed_players\<close> is the parameter \<open>seed\<close>.
\<close>

definition start ::
  "('a tournament_scheme \<Rightarrow> 'a tournament_scheme result) \<Rightarrow>
   'a tournament_scheme \<Rightarrow> 'a tournament_scheme result" where
  "start seed s =
     seed (trigger_event on_start
       (s\<lparr>num_players := Some (length (participants s)),
          players := reset_scores (participants s) (players s)\<rparr>))"

section \<open>SwissTournament\<close>

record swiss = tournament +
  current_round :: nat
  rounds :: nat
  opponents :: "pid \<rightharpoonup> pid list"
  matches_per_round :: "nat option"

definition SwissTournament :: "nat \<Rightarrow> pid list \<Rightarrow> (pid \<Rightarrow> participant) \<Rightarrow> swiss" where
  "SwissTournament r ps pl =
     \<lparr>participants = ps, players = pl, store = [], matches = [], events = [],
      num_players = None,
      current_round = 0, rounds = r, opponents = Map.empty, matches_per_round = None\<rparr>"

definition setdefault :: "('k \<rightharpoonup> 'v list) \<Rightarrow> 'k \<Rightarrow> ('k \<rightharpoonup> 'v list)" where
  "setdefault d k = (case d k of None \<Rightarrow> d(k \<mapsto> []) | Some v \<Rightarrow> d)"

definition opponents_of :: "(pid \<rightharpoonup> pid list) \<Rightarrow> pid \<Rightarrow> pid list" where
  "opponents_of d k = (case d k of None \<Rightarrow> [] | Some v \<Rightarrow> v)"

text \<open>
  The \<^verbatim>\<open>for ... else\<close> of \<^verbatim>\<open>setup_round\<close>, after \<^verbatim>\<open>home\<close> was popped: the first
  queued player that is not in \<^verbatim>\<open>opponents[home]\<close> is removed from the queue as
  \<^verbatim>\<open>away\<close>; when there is none, the front of the queue is popped, which raises on an
  empty queue. \<^verbatim>\<open>setdefault\<close> runs once per scanned player, so it creates the entry
  of \<^verbatim>\<open>home\<close> exactly when the queue is not empty.
\<close>

definition choose_away ::
  "pid \<Rightarrow> pid list \<Rightarrow> (pid \<rightharpoonup> pid list) \<Rightarrow>
   error + (pid \<times> pid list \<times> (pid \<rightharpoonup> pid list))" where
  "choose_away h queue d =
     (case find (\<lambda>player. player \<notin> set (opponents_of d h)) queue of
        Some a \<Rightarrow> Inr (a, remove1 a queue, setdefault d h)
      | None \<Rightarrow>
          (case queue of
             [] \<Rightarrow> Inl IndexError
           | a # rest \<Rightarrow> Inr (a, rest, setdefault d h)))"

text \<open>The rest of the loop body: the match is built, recorded and announced.\<close>

definition record_opponent :: "pid \<Rightarrow> pid \<Rightarrow> (pid \<rightharpoonup> pid list) \<Rightarrow> (pid \<rightharpoonup> pid list)" where
  "record_opponent p q d = d(p \<mapsto> opponents_of d p @ [q])"

definition create_match :: "pid \<Rightarrow> pid \<Rightarrow> swiss \<Rightarrow> swiss" where
  "create_match h a s =
     (let m = length (store s);
          s1 = s\<lparr>store := store s @ [Match (Some h) (Some a)]\<rparr>;
          s2 = set_current_match a m (set_current_match h m s1);
          s3 = s2\<lparr>opponents := record_opponent a h (record_opponent h a (opponents s2))\<rparr>;
          s4 = s3\<lparr>matches := matches s3 @ [m]\<rparr>
      in trigger_event (on_match_ready m) s4)"

lemma choose_away_shorter:
  "choose_away h queue d = Inr (a, queue', d') \<Longrightarrow> length queue' < Suc (length queue)"
  by (auto simp: choose_away_def length_remove1 split: option.splits list.splits)

function pair_players :: "pid list \<Rightarrow> swiss \<Rightarrow> swiss result" where
  "pair_players [] s = Inr s"
| "pair_players (h # queue) s =
     (case choose_away h queue (opponents s) of
        Inl e \<Rightarrow> Inl (e, s)
      | Inr (a, queue', d) \<Rightarrow> pair_players queue' (create_match h a (s\<lparr>opponents := d\<rparr>)))"
  by pat_completeness auto
termination
  by (relation "measure (\<lambda>(q, s). length q)") (auto dest: choose_away_shorter)

definition setup_round :: "swiss \<Rightarrow> swiss result" where
  "setup_round s =
     (case get_players_by_rank (s\<lparr>current_round := current_round s + 1\<rparr>) of
        (ranked, s1) \<Rightarrow>
          (case pair_players ranked s1 of
             Inl e \<Rightarrow> Inl e
           | Inr s2 \<Rightarrow> Inr (trigger_event on_start_round s2)))"

definition swiss_seed_players :: "swiss \<Rightarrow> swiss result" where
  "swiss_seed_players s =
     setup_round (s\<lparr>matches_per_round := Some (length (participants s) div 2)\<rparr>)"

definition is_round_complete :: "swiss \<Rightarrow> bool" where
  "is_round_complete s \<longleftrightarrow> filter (\<lambda>m. \<not> is_complete (store s ! m)) (matches s) = []"

definition swiss_process_match_result :: "mref \<Rightarrow> swiss \<Rightarrow> swiss result" where
  "swiss_process_match_result m s =
     (if is_round_complete s then
        (if current_round s \<noteq> rounds s then setup_round s
         else Inr (trigger_event on_complete s))
      else Inr s)"

definition swiss_start :: "swiss \<Rightarrow> swiss result" where
  "swiss_start = start swiss_seed_players"

definition swiss_report_result :: "mref \<Rightarrow> winner \<Rightarrow> swiss \<Rightarrow> swiss result" where
  "swiss_report_result = report_result swiss_process_match_result"

section \<open>SingleEliminationTournament\<close>

text \<open>
  \<^verbatim>\<open>bracket\<close> and \<^verbatim>\<open>sources\<close> are dictionaries keyed by \<^verbatim>\<open>Match\<close> objects, which
  have no \<^verbatim>\<open>__eq__\<close>: the key is the object's identity. The attribute \<^verbatim>\<open>rounds\<close>
  of this class is named \<open>bracket_rounds\<close> here, \<open>rounds\<close> being the field of
  \<open>swiss\<close>; it and \<^verbatim>\<open>field_size\<close> do not exist before \<^verbatim>\<open>seed_players\<close>.
\<close>

record single = tournament +
  bracket :: "mref \<rightharpoonup> mref"
  sources :: "mref \<rightharpoonup> mref \<times> mref"
  bracket_rounds :: "nat option"
  field_size :: "nat option"

definition SingleEliminationTournament :: "pid list \<Rightarrow> (pid \<Rightarrow> participant) \<Rightarrow> single" where
  "SingleEliminationTournament ps pl =
     \<lparr>participants = ps, players = pl, store = [], matches = [], events = [],
      num_players = None,
      bracket = Map.empty, sources = Map.empty, bracket_rounds = None, field_size = None\<rparr>"

text \<open>
  The ceiling of the binary logarithm in exact arithmetic, the least \<open>r\<close> with
  \<open>n \<le> 2 ^ r\<close>. The source does not compute this function: see
  \<open>single_seed_players\<close>.
\<close>

function ceil_log2 :: "nat \<Rightarrow> nat" where
  "ceil_log2 n = (if n \<le> 1 then 0 else Suc (ceil_log2 ((n + 1) div 2)))"
  by pat_completeness auto
termination
  by (relation "measure (\<lambda>n. n)") auto

declare ceil_log2.simps [simp del]

definition single_process_match_result :: "mref \<Rightarrow> single \<Rightarrow> single result" where
  "single_process_match_result m s =
     (case bracket s m of
        None \<Rightarrow> Inr (trigger_event on_complete s)
      | Some winner_match \<Rightarrow>
          (case winner (store s ! m) of
             Some (Won w) \<Rightarrow>
               (let s1 = set_current_match w winner_match s
                in case sources s1 winner_match of
                     None \<Rightarrow> Inl (KeyError, s1)
                   | Some (home_source, away_source) \<Rightarrow>
                       (let wm = store s1 ! winner_match;
                            s2 = s1\<lparr>store := (store s1)[winner_match :=
                                   (if m = home_source then wm\<lparr>home := Some w\<rparr>
                                    else wm\<lparr>away := Some w\<rparr>)]\<rparr>
                        in Inr (if active (store s2 ! winner_match)
                                then trigger_event (on_match_ready winner_match) s2
                                else s2)))
           | _ \<Rightarrow> Inl (AttributeError, s)))"

definition single_report_result :: "mref \<Rightarrow> winner \<Rightarrow> single \<Rightarrow> single result" where
  "single_report_result = report_result single_process_match_result"

text \<open>One turn of the first loop of \<^verbatim>\<open>seed_players\<close>, after the two pops.\<close>

definition seed_match :: "pid \<Rightarrow> pid \<Rightarrow> single \<Rightarrow> single" where
  "seed_match h a s =
     (let s0 = s\<lparr>players := (players s)(h := (players s h)\<lparr>score := Some 0\<rparr>)\<rparr>;
          s1 = s0\<lparr>players := (players s0)(a := (players s0 a)\<lparr>score := Some 0\<rparr>)\<rparr>;
          m = length (store s1);
          s2 = s1\<lparr>store := store s1 @ [Match (Some h) (Some a)]\<rparr>;
          s3 = set_current_match a m (set_current_match h m s2)
      in trigger_event (on_match_ready m) s3)"

function seed_matches ::
  "pid list \<Rightarrow> mref list \<Rightarrow> single \<Rightarrow> (error \<times> single) + (mref list \<times> single)" where
  "seed_matches [] match_queue s = Inr (match_queue, s)"
| "seed_matches [h] match_queue s = Inl (IndexError, s)"
| "seed_matches (h # x # xs) match_queue s =
     seed_matches (butlast (x # xs)) (match_queue @ [length (store s)])
       (seed_match h (last (x # xs)) s)"
  by pat_completeness auto
termination
  by (relation "measure (\<lambda>(q, mq, s). length q)") auto

function build_bracket :: "mref list \<Rightarrow> single \<Rightarrow> mref list \<times> single" where
  "build_bracket [] s = ([], s)"
| "build_bracket [x] s = ([x], s)"
| "build_bracket (top_m # bot_m # rest) s =
     (let m = length (store s)
      in build_bracket (rest @ [m])
           (s\<lparr>store := store s @ [Match None None],
              bracket := (bracket s)(top_m \<mapsto> m, bot_m \<mapsto> m),
              sources := (sources s)(m \<mapsto> (top_m, bot_m)),
              matches := matches s @ [top_m, bot_m]\<rparr>))"
  by pat_completeness auto
termination
  by (relation "measure (\<lambda>(mq, s). length mq)") auto

text \<open>
  \<^verbatim>\<open>match.report_result(match.home)\<close>: with an empty home slot the argument is
  \<^verbatim>\<open>None\<close>, which \<^verbatim>\<open>report_result\<close> stores and \<^verbatim>\<open>calc_match_points\<close> fails on.
\<close>

definition report_home :: "mref \<Rightarrow> single \<Rightarrow> single result" where
  "report_home m s =
     (case home (store s ! m) of
        Some h \<Rightarrow> single_report_result m (Won h) s
      | None \<Rightarrow>
          Inl (AttributeError,
               s\<lparr>store := (store s)[m := (store s ! m)
                    \<lparr>winner := None, loser := map_option Won (away (store s ! m))\<rparr>]\<rparr>))"

fun resolve_byes :: "mref list \<Rightarrow> single \<Rightarrow> single result" where
  "resolve_byes [] s = Inr s"
| "resolve_byes (m # ms) s =
     (if away (store s ! m) = Some BY then
        (case report_home m s of
           Inl e \<Rightarrow> Inl e
         | Inr s1 \<Rightarrow> resolve_byes ms s1)
      else resolve_byes ms s)"

text \<open>
  \<^verbatim>\<open>seed_players\<close>. The source computes \<^verbatim>\<open>int(math.ceil(math.log(n, 2)))\<close> in
  floating point, with the logarithm of the C library. The model does not fix that
  value: \<open>ceil_log n\<close> is what the expression evaluates to on \<open>n \<ge> 1\<close>, a
  parameter; \<^verbatim>\<open>math.log(0, 2)\<close> raises. Where the floating-point result is exact the
  parameter is \<open>ceil_log2\<close>; it is not exact everywhere: \<^verbatim>\<open>math.log(2**29, 2)\<close> is
  29.000000000000004, so that 30 rounds are computed for \<open>2 ^ 29\<close> participants.
\<close>

definition single_seed_players :: "(nat \<Rightarrow> nat) \<Rightarrow> single \<Rightarrow> single result" where
  "single_seed_players ceil_log s =
     (case num_players s of
        None \<Rightarrow> Inl (AttributeError, s)
      | Some n \<Rightarrow>
          if n = 0 then Inl (ValueError, s)
          else
            (let r = ceil_log n;
                 f = 2 ^ r;
                 s1 = s\<lparr>bracket_rounds := Some r, field_size := Some f\<rparr>
             in case seed_matches (participants s1 @ replicate (f - n) BY) [] s1 of
                  Inl e \<Rightarrow> Inl e
                | Inr (match_queue, s2) \<Rightarrow>
                    (case build_bracket match_queue s2 of
                       ([], s3) \<Rightarrow> Inl (IndexError, s3)
                     | (q, s3) \<Rightarrow>
                         (let s4 = s3\<lparr>matches := matches s3 @ [last q]\<rparr>
                          in resolve_byes (matches s4) s4))))"

definition single_start :: "(nat \<Rightarrow> nat) \<Rightarrow> single \<Rightarrow> single result" where
  "single_start ceil_log = start (single_seed_players ceil_log)"

section \<open>Views and scenarios used in the statements\<close>

text \<open>The home and away slots of the matches of the match list, in order.\<close>

definition pairs :: "'a tournament_scheme \<Rightarrow> (pid option \<times> pid option) list" where
  "pairs s = map (\<lambda>m. (home (store s ! m), away (store s ! m))) (matches s)"

text \<open>
  The pairing loop of \<^verbatim>\<open>setup_round\<close> once more, keeping for each match it creates
  the moment of its creation: \<^verbatim>\<open>home\<close>, \<^verbatim>\<open>away\<close>, the queue as it stood after
  \<^verbatim>\<open>home\<close> was popped, and \<^verbatim>\<open>opponents\<close> as it stood then.
\<close>

function round_trace ::
  "pid list \<Rightarrow> (pid \<rightharpoonup> pid list) \<Rightarrow> (pid \<times> pid \<times> pid list \<times> (pid \<rightharpoonup> pid list)) list" where
  "round_trace [] d = []"
| "round_trace (h # queue) d =
     (case choose_away h queue d of
        Inl e \<Rightarrow> []
      | Inr (a, queue', d') \<Rightarrow>
          (h, a, queue, d) # round_trace queue' (record_opponent a h (record_opponent h a d')))"
  by pat_completeness auto
termination
  by (relation "measure (\<lambda>(q, d). length q)") (auto dest: choose_away_shorter)

text \<open>A list taken two by two from the front; a last single element is left out.\<close>

fun adjacent_pairs :: "pid list \<Rightarrow> (pid \<times> pid) list" where
  "adjacent_pairs (a # b # xs) = (a, b) # adjacent_pairs xs"
| "adjacent_pairs xs = []"

text \<open>A heap in which every participant is as its constructor leaves it.\<close>

definition fresh :: "pid \<Rightarrow> participant" where
  "fresh = (\<lambda>p. Participant)"

text \<open>\<open>n\<close> participants with ids of their own: P, Px, Pxx and so on.\<close>

definition numbered :: "nat \<Rightarrow> pid list" where
  "numbered n = map (\<lambda>i. CHR ''P'' # replicate i CHR ''x'') [0..<n]"

text \<open>
  Four participants, three rounds: B and C win round 1, so round 2 is paired from
  the ranking B, C, A, D; then C and A win round 2.
\<close>

definition after_round1 :: swiss where
  "after_round1 =
     state_of (swiss_report_result 1 (Won ''C'')
       (state_of (swiss_report_result 0 (Won ''B'')
         (state_of (swiss_start (SwissTournament 3 [''A'', ''B'', ''C'', ''D''] fresh))))))"

definition after_round2 :: swiss where
  "after_round2 =
     state_of (swiss_report_result 3 (Won ''A'')
       (state_of (swiss_report_result 2 (Won ''C'') after_round1)))"


text \<open>
  Two participants, three rounds, after the result of round 1 was reported and round 2
  was set up from it: every further round can only repeat A against B.
\<close>

definition two_after_round1 :: swiss where
  "two_after_round1 =
     state_of (swiss_report_result 0 (Won ''A'')
       (state_of (swiss_start (SwissTournament 3 [''A'', ''B''] fresh))))"

text \<open>
  The first loop of the elimination format's \<^verbatim>\<open>seed_players\<close> as a list function: the
  (home, away) pairs it draws from the player queue, front against back.
\<close>

fun seed_pairs :: "pid list \<Rightarrow> (pid \<times> pid) list" where
  "seed_pairs (h # x # xs) = (h, last (x # xs)) # seed_pairs (butlast (x # xs))"
| "seed_pairs q = []"

text \<open>
  The state of an elimination tournament of the participants \<^verbatim>\<open>ps\<close> with \<^verbatim>\<open>L\<close>
  first-round matches while the last loop of \<^verbatim>\<open>seed_players\<close> has gone through the
  matches before \<open>k\<close>: the bracket is built, the first-round matches keep their slots,
  no later match has the bye in its away slot, every bye match before \<open>k\<close> is won by
  its home participant, and each such participant has 3 points and every other one 0.
\<close>

definition bye_inv :: "pid list \<Rightarrow> nat \<Rightarrow> nat \<Rightarrow> single \<Rightarrow> bool" where
  "bye_inv ps L k s \<longleftrightarrow>
     length (store s) = 2 * L - 1 \<and>
     matches s = [0..<2 * L - 1] \<and>
     participants s = ps \<and>
     field_size s = Some (2 * L) \<and>
     bracket s = (\<lambda>m. if m < 2 * L - 2 then Some (L + m div 2) else None) \<and>
     sources s = (\<lambda>p. if L \<le> p \<and> p < 2 * L - 1 then Some (2 * (p - L), 2 * (p - L) + 1)
                        else None) \<and>
     (\<forall>i<L. home (store s ! i) = Some (ps ! i) \<and>
            away (store s ! i) = Some (if i < 2 * L - length ps then BY else ps ! (2 * L - 1 - i))) \<and>
     (\<forall>i. L \<le> i \<and> i < 2 * L - 1 \<longrightarrow> away (store s ! i) \<noteq> Some BY) \<and>
     (\<forall>i<k. i < 2 * L - length ps \<longrightarrow> winner (store s ! i) = Some (Won (ps ! i))) \<and>
     (distinct ps \<longrightarrow>
        (\<forall>j<length ps. tournament_score (players s (ps ! j)) =
           (if j < k \<and> j < 2 * L - length ps then 3 else 0)))"





section \<open>Unfolding and frame lemmas\<close>

lemma state_of_simps [simp]: "state_of (Inl (e, s)) = s" "state_of (Inr s) = s"
  by (simp_all add: state_of_def)

lemmas swiss_defs = swiss_start_def start_def SwissTournament_def swiss_seed_players_def
  setup_round_def trigger_event_def get_players_by_rank_def reset_scores_def choose_away_def
  create_match_def opponents_of_def setdefault_def Match_def set_current_match_def
  record_opponent_def swiss_report_result_def report_result_def handle_match_result_def
  calc_match_points_def add_score_def swiss_process_match_result_def is_round_complete_def
  is_complete_def pairs_def Let_def

lemma create_match_fields [simp]:
  "store (create_match h a s) = store s @ [Match (Some h) (Some a)]"
  "matches (create_match h a s) = matches s @ [length (store s)]"
  "events (create_match h a s) = events s @ [on_match_ready (length (store s))]"
  "opponents (create_match h a s) = record_opponent a h (record_opponent h a (opponents s))"
  "participants (create_match h a s) = participants s"
  "tournament_score (players (create_match h a s) p) = tournament_score (players s p)"
  "current_round (create_match h a s) = current_round s"
  "rounds (create_match h a s) = rounds s"
  by (simp_all add: create_match_def Let_def set_current_match_def trigger_event_def)

lemma rank_fst_round [simp]:
  "get_players_by_rank (s\<lparr>current_round := k\<rparr>) = (fst (get_players_by_rank s), s\<lparr>current_round := k\<rparr>)"
  by (simp add: get_players_by_rank_def)

lemmas single_defs = single_start_def start_def single_seed_players_def
  SingleEliminationTournament_def trigger_event_def reset_scores_def seed_match_def
  set_current_match_def Match_def report_home_def single_report_result_def report_result_def
  handle_match_result_def calc_match_points_def add_score_def single_process_match_result_def
  active_def BY_def Let_def pairs_def ceil_log2.simps fresh_def Participant_def

lemma seed_match_fields [simp]:
  "store (seed_match h a s) = store s @ [Match (Some h) (Some a)]"
  "matches (seed_match h a s) = matches s"
  "events (seed_match h a s) = events s @ [on_match_ready (length (store s))]"
  "participants (seed_match h a s) = participants s"
  "num_players (seed_match h a s) = num_players s"
  "bracket (seed_match h a s) = bracket s"
  "sources (seed_match h a s) = sources s"
  "field_size (seed_match h a s) = field_size s"
  "bracket_rounds (seed_match h a s) = bracket_rounds s"
  "tournament_score (players (seed_match h a s) p) = tournament_score (players s p)"
  by (simp_all add: seed_match_def Let_def set_current_match_def trigger_event_def)

lemma reset_scores_zero:
  "tournament_score (reset_scores ps pl p) =
     (if p \<in> set ps then 0 else tournament_score (pl p))"
  unfolding reset_scores_def by (induction ps arbitrary: pl) auto

lemma sort_key_const: "\<forall>x\<in>set xs. f x = c \<Longrightarrow> sort_key f xs = xs"
  by (induction xs) (auto simp: insort_is_Cons)

section \<open>Ranking\<close>

text \<open>
  C2, as the code has it. \<^verbatim>\<open>get_players_by_rank\<close> returns the participants in
  descending order of score, and participants with equal scores keep the order they
  have in the participant list (the insertion order), whatever an earlier ranking was:
  the result is a permutation of the participant list that is sorted by descending
  score and that, restricted to any one score, is the participant list restricted to
  that score.
\<close>

theorem rank_descending_insertion_stable:
  "sorted_wrt (\<lambda>p q. tournament_score (players s q) \<le> tournament_score (players s p))
     (fst (get_players_by_rank s)) \<and>
   mset (fst (get_players_by_rank s)) = mset (participants s) \<and>
   (\<forall>k. filter (\<lambda>p. tournament_score (players s p) = k) (fst (get_players_by_rank s)) =
        filter (\<lambda>p. tournament_score (players s p) = k) (participants s))"
proof -
  let ?f = "\<lambda>p. - tournament_score (players s p)"
  have "sorted (map ?f (sort_key ?f (participants s)))"
    by (rule sorted_sort_key)
  then have a: "sorted_wrt (\<lambda>p q. tournament_score (players s q) \<le> tournament_score (players s p))
     (fst (get_players_by_rank s))"
    by (simp add: sorted_map get_players_by_rank_def)
  have b: "mset (fst (get_players_by_rank s)) = mset (participants s)"
    by (simp add: get_players_by_rank_def)
  have c: "filter (\<lambda>p. tournament_score (players s p) = k) (fst (get_players_by_rank s)) =
        filter (\<lambda>p. tournament_score (players s p) = k) (participants s)" for k
    using sort_key_stable[of ?f "- k" "participants s"]
    by (simp add: get_players_by_rank_def)
  from a b c show ?thesis by blast
qed

text \<open>
  The ranking is not stable with respect to an earlier ranking. After round 1 the
  ranking is B, C, A, D (and round 2 is paired from it); after round 2, A and B both
  have 3 points and A is ranked before B.
\<close>

theorem rank_prior_order_counterexample:
  "fst (get_players_by_rank after_round1) = [''B'', ''C'', ''A'', ''D''] \<and>
   pairs after_round1 = [(Some ''A'', Some ''B''), (Some ''C'', Some ''D''),
                         (Some ''B'', Some ''C''), (Some ''A'', Some ''D'')] \<and>
   tournament_score (players after_round2 ''A'') = 3 \<and>
   tournament_score (players after_round2 ''B'') = 3 \<and>
   fst (get_players_by_rank after_round2) = [''C'', ''A'', ''B'', ''D'']"
  by (simp add: after_round2_def after_round1_def fresh_def Participant_def swiss_defs)

text \<open>
  C9. \<^verbatim>\<open>get_players_by_rank\<close> is a pure read: it leaves the state as it found it
  (participant list, scores, match list and all the rest), its result holds the
  participants of the participant list, a second call returns the same, and a round
  set up after a call is the round set up without it.
\<close>

theorem get_players_by_rank_pure_read:
  "snd (get_players_by_rank s) = s \<and>
   mset (fst (get_players_by_rank s)) = mset (participants s) \<and>
   get_players_by_rank (snd (get_players_by_rank s)) = get_players_by_rank s \<and>
   setup_round (snd (get_players_by_rank s)) = setup_round s"
  by (simp add: get_players_by_rank_def)

section \<open>Reporting a result\<close>




section \<open>Round pairing\<close>

lemma pair_players_store:
  "store (state_of (pair_players q s)) =
     store s @ map (\<lambda>(h, a, queue, d). Match (Some h) (Some a)) (round_trace q (opponents s))"
proof (induction q s rule: pair_players.induct)
  case (1 s)
  show ?case by simp
next
  case (2 h queue s)
  show ?case
  proof (cases "choose_away h queue (opponents s)")
    case (Inl e)
    then show ?thesis by simp
  next
    case (Inr r)
    obtain a queue' d where r: "r = (a, queue', d)" by (cases r)
    from "2.IH"[OF Inr[unfolded r] refl refl] Inr r show ?thesis by simp
  qed
qed

lemma choose_away_forced:
  "choose_away h queue d = Inr (a, queue', d') \<Longrightarrow>
     a \<notin> set (opponents_of d h) \<or> (\<forall>p\<in>set queue. p \<in> set (opponents_of d h))"
  by (auto simp: choose_away_def find_None_iff find_Some_iff split: option.splits list.splits)

lemma round_trace_forced:
  "(h, a, queue, d) \<in> set (round_trace q d0) \<Longrightarrow>
     a \<in> set queue \<and> (a \<notin> set (opponents_of d h) \<or> (\<forall>p\<in>set queue. p \<in> set (opponents_of d h)))"
proof (induction q d0 rule: round_trace.induct)
  case (1 d)
  then show ?case by simp
next
  case (2 h' queue' d')
  show ?case
  proof (cases "choose_away h' queue' d'")
    case (Inl e)
    with "2.prems" show ?thesis by simp
  next
    case (Inr r)
    obtain a2 q2 d2 where r: "r = (a2, q2, d2)" by (cases r)
    have mem: "a2 \<in> set queue'"
      using Inr r by (auto simp: choose_away_def find_Some_iff split: option.splits list.splits)
    from "2.prems" Inr r consider "(h, a, queue, d) = (h', a2, queue', d')"
      | "(h, a, queue, d) \<in> set (round_trace q2 (record_opponent a2 h' (record_opponent h' a2 d2)))"
      by auto
    then show ?thesis
    proof cases
      case 1
      with choose_away_forced[OF Inr[unfolded r]] mem show ?thesis by simp
    next
      case 2
      from "2.IH"[OF Inr[unfolded r] refl refl 2] show ?thesis .
    qed
  qed
qed

lemma setup_round_store:
  "store (state_of (setup_round s)) =
     store s @ map (\<lambda>(h, a, queue, d). Match (Some h) (Some a))
       (round_trace (fst (get_players_by_rank s)) (opponents s))"
  using pair_players_store[of "fst (get_players_by_rank s)" "s\<lparr>current_round := current_round s + 1\<rparr>"]
  by (cases "pair_players (fst (get_players_by_rank s)) (s\<lparr>current_round := current_round s + 1\<rparr>)")
     (auto simp: setup_round_def trigger_event_def)

text \<open>
  C3. The matches that \<^verbatim>\<open>setup_round\<close> creates are those of the trace of its pairing
  loop, in order; and for each of them, at its creation, \<^verbatim>\<open>away\<close> was in the queue
  and either was not recorded as an opponent of \<^verbatim>\<open>home\<close>, or every participant
  still in the queue was recorded as an opponent of \<^verbatim>\<open>home\<close>.
\<close>

theorem setup_round_repeat_only_when_forced:
  "store (state_of (setup_round s)) =
     store s @ map (\<lambda>(h, a, queue, d). Match (Some h) (Some a))
       (round_trace (fst (get_players_by_rank s)) (opponents s)) \<and>
   (\<forall>(h, a, queue, d) \<in> set (round_trace (fst (get_players_by_rank s)) (opponents s)).
      a \<in> set queue \<and>
      (a \<notin> set (opponents_of d h) \<or> (\<forall>p\<in>set queue. p \<in> set (opponents_of d h))))"
  using setup_round_store[of s] round_trace_forced by fastforce

theorem setup_round_repeat_only_when_forced_witness:
  "round_trace (fst (get_players_by_rank two_after_round1)) (opponents two_after_round1) =
     [(''A'', ''B'', [''B''], opponents two_after_round1)] \<and>
   ''B'' \<in> set [''B''] \<and>
   set [''B''] \<subseteq> set (opponents_of (opponents two_after_round1) ''A'') \<and>
   store (state_of (setup_round two_after_round1)) =
     store two_after_round1 @ [Match (Some ''A'') (Some ''B'')]"
proof -
  have tr: "round_trace (fst (get_players_by_rank two_after_round1)) (opponents two_after_round1) =
     [(''A'', ''B'', [''B''], opponents two_after_round1)]"
    by (simp add: two_after_round1_def fresh_def Participant_def swiss_defs)
  have opp: "opponents_of (opponents two_after_round1) ''A'' = [''B'', ''B'']"
    by (simp add: two_after_round1_def fresh_def Participant_def swiss_defs)
  from setup_round_repeat_only_when_forced[of two_after_round1] tr opp show ?thesis by simp
qed

text \<open>
  C7. Participants A, B, C, D and at least two rounds: \<^verbatim>\<open>start\<close> creates exactly the
  matches A-B and C-D; after A and C are reported as winners the scores are 3, 0, 3, 0,
  the ranking is A, C, B, D, and round 2 has added exactly the matches A-C and B-D.
\<close>

theorem scenario_A:
  "2 \<le> r \<Longrightarrow>
     \<exists>s1 s2 s3.
        swiss_start (SwissTournament r [''A'', ''B'', ''C'', ''D''] pl) = Inr s1 \<and>
        pairs s1 = [(Some ''A'', Some ''B''), (Some ''C'', Some ''D'')] \<and>
        swiss_report_result 0 (Won ''A'') s1 = Inr s2 \<and>
        swiss_report_result 1 (Won ''C'') s2 = Inr s3 \<and>
        map (\<lambda>p. tournament_score (players s3 p)) [''A'', ''B'', ''C'', ''D''] = [3, 0, 3, 0] \<and>
        fst (get_players_by_rank s3) = [''A'', ''C'', ''B'', ''D''] \<and>
        pairs s3 = [(Some ''A'', Some ''B''), (Some ''C'', Some ''D''),
                    (Some ''A'', Some ''C''), (Some ''B'', Some ''D'')]"
  by (simp add: swiss_defs)

theorem scenario_A_witness:
  "(2::nat) \<le> 2 \<and>
   (\<exists>s1 s2 s3.
        swiss_start (SwissTournament 2 [''A'', ''B'', ''C'', ''D''] fresh) = Inr s1 \<and>
        pairs s1 = [(Some ''A'', Some ''B''), (Some ''C'', Some ''D'')] \<and>
        swiss_report_result 0 (Won ''A'') s1 = Inr s2 \<and>
        swiss_report_result 1 (Won ''C'') s2 = Inr s3 \<and>
        map (\<lambda>p. tournament_score (players s3 p)) [''A'', ''B'', ''C'', ''D''] = [3, 0, 3, 0] \<and>
        fst (get_players_by_rank s3) = [''A'', ''C'', ''B'', ''D''] \<and>
        pairs s3 = [(Some ''A'', Some ''B''), (Some ''C'', Some ''D''),
                    (Some ''A'', Some ''C''), (Some ''B'', Some ''D'')])"
  using scenario_A[of 2 fresh] by simp

section \<open>Odd participant counts in the round-based format\<close>

lemma choose_away_length:
  "choose_away h queue d = Inr (a, queue', d') \<Longrightarrow> Suc (length queue') = length queue"
  by (auto simp: choose_away_def find_Some_iff length_remove1 split: option.splits list.splits)

lemma choose_away_empty: "choose_away h [] d = Inl IndexError"
  by (simp add: choose_away_def)

lemma choose_away_Inl: "choose_away h queue d = Inl e \<Longrightarrow> queue = [] \<and> e = IndexError"
  by (auto simp: choose_away_def split: option.splits list.splits)

lemma pair_players_odd:
  "odd (length q) \<Longrightarrow>
     \<exists>s'. pair_players q s = Inl (IndexError, s') \<and>
          matches s' = matches s @ [length (store s)..<length (store s) + length q div 2] \<and>
          length (store s') = length (store s) + length q div 2 \<and>
          (on_start_round \<in> set (events s') \<longleftrightarrow> on_start_round \<in> set (events s))"
proof (induction q s rule: pair_players.induct)
  case (1 s)
  then show ?case by simp
next
  case (2 h queue s)
  show ?case
  proof (cases "choose_away h queue (opponents s)")
    case (Inl e)
    with choose_away_Inl[OF Inl] show ?thesis by simp
  next
    case (Inr r)
    obtain a queue' d where r: "r = (a, queue', d)" by (cases r)
    have len: "Suc (length queue') = length queue"
      using choose_away_length Inr r by blast
    with "2.prems" have odd': "odd (length queue')"
      by (metis even_Suc length_Cons)
    from len have half: "length (h # queue) div 2 = Suc (length queue' div 2)"
      using odd' by (auto elim!: oddE)
    from "2.IH"[OF Inr[unfolded r] refl refl odd']
    obtain s' where s': "pair_players queue' (create_match h a (s\<lparr>opponents := d\<rparr>)) = Inl (IndexError, s')"
      "matches s' = matches (create_match h a (s\<lparr>opponents := d\<rparr>)) @
         [length (store (create_match h a (s\<lparr>opponents := d\<rparr>)))..<
          length (store (create_match h a (s\<lparr>opponents := d\<rparr>))) + length queue' div 2]"
      "length (store s') = length (store (create_match h a (s\<lparr>opponents := d\<rparr>))) + length queue' div 2"
      "on_start_round \<in> set (events s') \<longleftrightarrow> on_start_round \<in> set (events (create_match h a (s\<lparr>opponents := d\<rparr>)))"
      by blast
    have "pair_players (h # queue) s = Inl (IndexError, s')"
      using Inr r s'(1) by simp
    moreover have "matches s' = matches s @ [length (store s)..<length (store s) + length (h # queue) div 2]"
      using s'(2) half by (simp add: upt_rec[of "length (store s)"] del: upt.simps)
    moreover have "length (store s') = length (store s) + length (h # queue) div 2"
      using s'(3) half by simp
    moreover have "on_start_round \<in> set (events s') \<longleftrightarrow> on_start_round \<in> set (events s)"
      using s'(4) by simp
    ultimately show ?thesis by blast
  qed
qed

lemma opponents_of_setdefault [simp]: "opponents_of (setdefault d h) x = opponents_of d x"
  by (simp add: opponents_of_def setdefault_def split: option.splits)

lemma opponents_of_record:
  "opponents_of (record_opponent p q d) x = (if x = p then opponents_of d p @ [q] else opponents_of d x)"
  by (simp add: opponents_of_def record_opponent_def)

lemma round_trace_length: "length (round_trace q d) = length q div 2"
proof (induction q d rule: round_trace.induct)
  case (1 d)
  show ?case by simp
next
  case (2 h queue d)
  show ?case
  proof (cases "choose_away h queue d")
    case (Inl e)
    with choose_away_Inl[OF Inl] show ?thesis by simp
  next
    case (Inr r)
    obtain a queue' d' where r: "r = (a, queue', d')" by (cases r)
    have len: "Suc (length queue') = length queue"
      using choose_away_length Inr r by blast
    from "2.IH"[OF Inr[unfolded r] refl refl] Inr r len show ?thesis by auto
  qed
qed

lemma round_trace_fresh:
  "distinct q \<Longrightarrow> \<forall>x\<in>set q. opponents_of d x = [] \<Longrightarrow>
     map (\<lambda>(h, a, queue, d). (h, a)) (round_trace q d) = adjacent_pairs q"
proof (induction q arbitrary: d rule: adjacent_pairs.induct)
  case (1 a b xs)
  have ch: "choose_away a (b # xs) d = Inr (b, xs, setdefault d a)"
    using "1.prems"(2) by (simp add: choose_away_def)
  have "\<forall>x\<in>set xs. opponents_of (record_opponent b a (record_opponent a b (setdefault d a))) x = []"
    using "1.prems" by (auto simp: opponents_of_record)
  with "1.IH"[of "record_opponent b a (record_opponent a b (setdefault d a))"] "1.prems"(1) ch
  show ?case by simp
qed (simp_all add: choose_away_def)

lemma pair_players_events:
  "events (state_of (pair_players q s)) =
     events s @ map on_match_ready
       [length (store s)..<length (store s) + length (round_trace q (opponents s))]"
proof (induction q s rule: pair_players.induct)
  case (1 s)
  show ?case by simp
next
  case (2 h queue s)
  show ?case
  proof (cases "choose_away h queue (opponents s)")
    case (Inl e)
    then show ?thesis by simp
  next
    case (Inr r)
    obtain a queue' d where r: "r = (a, queue', d)" by (cases r)
    from "2.IH"[OF Inr[unfolded r] refl refl] Inr r show ?thesis
      by (simp add: upt_rec[of "length (store s)"] del: upt.simps)
  qed
qed

text \<open>
  C8, as the code has it. With an odd number of participants the constructor accepts
  the tournament. \<^verbatim>\<open>start\<close> then pairs the participants from the ranking, which is
  the participant list since all scores are 0: it creates the matches of the pairing
  loop, half the count rounded down many, appends them to the match list and fires
  \<^verbatim>\<open>on_match_ready\<close> for each; for distinct participants these are the participants
  of the list two by two, the last one left out. Then it raises \<^verbatim>\<open>IndexError\<close> from
  popping the empty queue; \<^verbatim>\<open>on_start_round\<close> is not fired.
\<close>

theorem swiss_odd_count_pairs_then_raises:
  "odd (length ps) \<Longrightarrow>
     \<exists>s'. swiss_start (SwissTournament r ps pl) = Inl (IndexError, s') \<and>
          matches s' = [0..<length ps div 2] \<and>
          length (store s') = length ps div 2 \<and>
          on_start_round \<notin> set (events s') \<and>
          events s' = on_start # map on_match_ready [0..<length ps div 2] \<and>
          store s' = map (\<lambda>(h, a, queue, d). Match (Some h) (Some a))
                       (round_trace ps Map.empty) \<and>
          (distinct ps \<longrightarrow>
             pairs s' = map (\<lambda>(h, a). (Some h, Some a)) (adjacent_pairs ps))"
proof -
  assume o: "odd (length ps)"
  let ?s1 = "trigger_event on_start
       ((SwissTournament r ps pl)\<lparr>num_players := Some (length (participants (SwissTournament r ps pl))),
          players := reset_scores (participants (SwissTournament r ps pl)) (players (SwissTournament r ps pl))\<rparr>)
       \<lparr>matches_per_round := Some (length ps div 2), current_round := 1\<rparr>"
  have rk: "fst (get_players_by_rank ?s1) = ps"
    by (simp add: get_players_by_rank_def trigger_event_def SwissTournament_def
        sort_key_const[where c = 0] reset_scores_zero)
  have s1: "store ?s1 = []" "events ?s1 = [on_start]" "opponents ?s1 = Map.empty"
    "matches ?s1 = []"
    by (simp_all add: trigger_event_def SwissTournament_def)
  from pair_players_odd[of ps ?s1] o
  obtain s' where s': "pair_players ps ?s1 = Inl (IndexError, s')"
    "matches s' = matches ?s1 @ [length (store ?s1)..<length (store ?s1) + length ps div 2]"
    "length (store s') = length (store ?s1) + length ps div 2"
    by auto
  have run: "swiss_start (SwissTournament r ps pl) = Inl (IndexError, s')"
    using s'(1) rk
    by (simp add: swiss_start_def start_def swiss_seed_players_def setup_round_def
        get_players_by_rank_def trigger_event_def SwissTournament_def)
  have ms: "matches s' = [0..<length ps div 2]" and len: "length (store s') = length ps div 2"
    using s'(2,3) by (simp_all only: s1 append_Nil list.size add_0)
  have ev: "events s' = on_start # map on_match_ready [0..<length ps div 2]"
    using pair_players_events[of ps ?s1]
    by (simp only: s'(1) state_of_simps s1 round_trace_length list.size add_0 append.simps)
  have st: "store s' = map (\<lambda>(h, a, queue, d). Match (Some h) (Some a)) (round_trace ps Map.empty)"
    using pair_players_store[of ps ?s1]
    by (simp only: s'(1) state_of_simps s1 append_Nil)
  have nsr: "on_start_round \<notin> set (events s')"
    by (auto simp: ev)
  have pr: "pairs s' = map (\<lambda>(h, a). (Some h, Some a)) (adjacent_pairs ps)" if "distinct ps"
  proof -
    have tr: "map (\<lambda>(h, a, queue, d). (h, a)) (round_trace ps Map.empty) = adjacent_pairs ps"
      using that by (intro round_trace_fresh) (simp_all add: opponents_of_def)
    have "pairs s' = map (\<lambda>m. (home (store s' ! m), away (store s' ! m))) [0..<length (store s')]"
      by (simp only: pairs_def ms len)
    also have "\<dots> = map (\<lambda>x. (home x, away x))
        (map (\<lambda>i. store s' ! i) [0..<length (store s')])"
      by (simp only: map_map o_def)
    also have "\<dots> = map (\<lambda>x. (home x, away x)) (store s')"
      by (simp only: map_nth)
    also have "\<dots> = map (\<lambda>(h, a). (Some h, Some a))
        (map (\<lambda>(h, a, queue, d). (h, a)) (round_trace ps Map.empty))"
      by (simp add: st Match_def split_def)
    finally show ?thesis by (simp only: tr)
  qed
  from run ms len nsr ev st pr show ?thesis by blast
qed

theorem swiss_odd_count_pairs_then_raises_witness:
  "odd (length [''A'', ''B'', ''C'', ''D'', ''E'']) \<and>
   (\<exists>s'. swiss_start (SwissTournament 2 [''A'', ''B'', ''C'', ''D'', ''E''] fresh) =
            Inl (IndexError, s') \<and>
          matches s' = [0, 1] \<and> length (store s') = 2 \<and> on_start_round \<notin> set (events s') \<and>
          events s' = [on_start, on_match_ready 0, on_match_ready 1] \<and>
          pairs s' = [(Some ''A'', Some ''B''), (Some ''C'', Some ''D'')])"
proof -
  have h: "odd (length [''A'', ''B'', ''C'', ''D'', ''E''])" by simp
  have ev: "\<exists>s'. swiss_start (SwissTournament 2 [''A'', ''B'', ''C'', ''D'', ''E''] fresh) =
            Inl (IndexError, s') \<and>
          matches s' = [0, 1] \<and> length (store s') = 2 \<and> on_start_round \<notin> set (events s') \<and>
          events s' = [on_start, on_match_ready 0, on_match_ready 1] \<and>
          pairs s' = [(Some ''A'', Some ''B''), (Some ''C'', Some ''D'')]"
    by (simp add: fresh_def Participant_def swiss_defs)
  from swiss_odd_count_pairs_then_raises[OF h, of 2 fresh] h ev show ?thesis by blast
qed

text \<open>
  Three participants are not rejected untouched: \<^verbatim>\<open>start\<close> raises, but only after
  the match A-B was created, recorded and announced.
\<close>

theorem swiss_odd_count_counterexample:
  "swiss_start (SwissTournament 2 [''A'', ''B'', ''C''] fresh) \<noteq>
     Inl (IndexError, SwissTournament 2 [''A'', ''B'', ''C''] fresh) \<and>
   isl (swiss_start (SwissTournament 2 [''A'', ''B'', ''C''] fresh)) \<and>
   pairs (state_of (swiss_start (SwissTournament 2 [''A'', ''B'', ''C''] fresh))) =
     [(Some ''A'', Some ''B'')] \<and>
   events (state_of (swiss_start (SwissTournament 2 [''A'', ''B'', ''C''] fresh))) =
     [on_start, on_match_ready 0]"
  by (simp add: fresh_def Participant_def swiss_defs)

section \<open>The field size\<close>

lemma ceil_log2_le: "n \<le> 2 ^ ceil_log2 n"
proof (induction n rule: ceil_log2.induct)
  case (1 n)
  show ?case
  proof (cases "n \<le> 1")
    case True
    then show ?thesis by (subst ceil_log2.simps) simp
  next
    case False
    from "1.IH"[OF False] have "(n + 1) div 2 \<le> 2 ^ ceil_log2 ((n + 1) div 2)" .
    then have "n \<le> 2 * 2 ^ ceil_log2 ((n + 1) div 2)" by linarith
    with False show ?thesis by (subst ceil_log2.simps) simp
  qed
qed

lemma ceil_log2_least: "n \<le> 2 ^ k \<Longrightarrow> ceil_log2 n \<le> k"
proof (induction n arbitrary: k rule: ceil_log2.induct)
  case (1 n)
  show ?case
  proof (cases "n \<le> 1")
    case True
    then show ?thesis by (subst ceil_log2.simps) simp
  next
    case False
    with "1.prems" obtain k' where k: "k = Suc k'"
      by (cases k) auto
    with "1.prems" have "(n + 1) div 2 \<le> 2 ^ k'" by simp
    from "1.IH"[OF False this] False k show ?thesis
      by (subst ceil_log2.simps) simp
  qed
qed

lemma ceil_log2_pos: "2 \<le> n \<Longrightarrow> 0 < ceil_log2 n"
  by (subst ceil_log2.simps) simp

lemma ceil_log2_lt: "2 \<le> n \<Longrightarrow> 2 ^ ceil_log2 n < 2 * n"
proof (rule ccontr)
  assume n: "2 \<le> n" and "\<not> 2 ^ ceil_log2 n < 2 * n"
  then have ge: "2 * n \<le> 2 ^ ceil_log2 n" by simp
  from ceil_log2_pos[OF n] obtain c where c: "ceil_log2 n = Suc c"
    by (cases "ceil_log2 n") auto
  with ge have "n \<le> 2 ^ c" by simp
  from ceil_log2_least[OF this] c show False by simp
qed

text \<open>
  \<open>ceil_log2\<close> is the ceiling of the binary logarithm, the value that
  \<^verbatim>\<open>int(math.ceil(math.log(n, 2)))\<close> has in exact arithmetic.
\<close>

lemma ceil_log2_eq_ceiling_log: "0 < n \<Longrightarrow> int (ceil_log2 n) = \<lceil>log 2 (real n)\<rceil>"
proof (cases "n = 1")
  case True
  then show ?thesis by (subst ceil_log2.simps) simp
next
  case False
  assume "0 < n"
  with False have n2: "2 \<le> n" by simp
  from ceil_log2_pos[OF n2] obtain c where c: "ceil_log2 n = Suc c"
    by (cases "ceil_log2 n") auto
  have up: "log 2 (real n) \<le> real (ceil_log2 n)"
    using ceil_log2_le[of n] n2 by (intro log_of_power_le) simp_all
  have "2 ^ c < n"
    using ceil_log2_lt[OF n2] c by simp
  then have "real c < log 2 (real n)"
    by (intro less_log_of_power) simp_all
  then have lo: "of_int (int (ceil_log2 n)) - 1 < log 2 (real n)"
    using c by simp
  from up have "log 2 (real n) \<le> of_int (int (ceil_log2 n))" by simp
  from ceiling_unique[OF lo this] show ?thesis by simp
qed

section \<open>Seeding and bracket construction\<close>

lemma seed_matches_even:
  "even (length q) \<Longrightarrow>
     \<exists>s'. seed_matches q mq s =
            Inr (mq @ [length (store s)..<length (store s) + length q div 2], s') \<and>
          store s' = store s @ map (\<lambda>(h, a). Match (Some h) (Some a)) (seed_pairs q) \<and>
          matches s' = matches s \<and> participants s' = participants s \<and>
          num_players s' = num_players s \<and> bracket s' = bracket s \<and>
          sources s' = sources s \<and> field_size s' = field_size s \<and>
          bracket_rounds s' = bracket_rounds s \<and>
          (\<forall>p. tournament_score (players s' p) = tournament_score (players s p))"
proof (induction q mq s rule: seed_matches.induct)
  case (1 mq s)
  show ?case by simp
next
  case (2 h mq s)
  then show ?case by simp
next
  case (3 h x xs mq s)
  let ?s1 = "seed_match h (last (x # xs)) s"
  let ?q = "butlast (x # xs)"
  from "3.prems" have ev: "even (length ?q)" by simp
  have half: "length (h # x # xs) div 2 = Suc (length ?q div 2)"
    using "3.prems" by simp
  from "3.IH"[OF ev, of ] obtain s' where
    s': "seed_matches ?q (mq @ [length (store s)]) ?s1 =
            Inr ((mq @ [length (store s)]) @ [length (store ?s1)..<length (store ?s1) + length ?q div 2], s')"
    "store s' = store ?s1 @ map (\<lambda>(h, a). Match (Some h) (Some a)) (seed_pairs ?q)"
    "matches s' = matches ?s1" "participants s' = participants ?s1"
    "num_players s' = num_players ?s1" "bracket s' = bracket ?s1"
    "sources s' = sources ?s1" "field_size s' = field_size ?s1"
    "bracket_rounds s' = bracket_rounds ?s1"
    "\<forall>p. tournament_score (players s' p) = tournament_score (players ?s1 p)"
    by blast
  have q: "mq @ [length (store s)..<length (store s) + length (h # x # xs) div 2] =
        (mq @ [length (store s)]) @ [length (store ?s1)..<length (store ?s1) + length ?q div 2]"
    unfolding half by (simp add: upt_rec[of "length (store s)"] del: upt.simps)
  have "seed_matches (h # x # xs) mq s =
      Inr (mq @ [length (store s)..<length (store s) + length (h # x # xs) div 2], s')"
    unfolding q using s'(1) by simp
  moreover have "store s' = store s @ map (\<lambda>(h, a). Match (Some h) (Some a)) (seed_pairs (h # x # xs))"
    using s'(2) by simp
  ultimately show ?case using s'(3-) by (intro exI[of _ s']) simp
qed

lemma seed_pairs_length: "length (seed_pairs q) = length q div 2"
  by (induction q rule: seed_pairs.induct) auto

lemma seed_pairs_nth:
  "i < length q div 2 \<Longrightarrow> seed_pairs q ! i = (q ! i, q ! (length q - 1 - i))"
proof (induction q arbitrary: i rule: seed_pairs.induct)
  case (1 h x xs)
  let ?r = "x # xs"
  show ?case
  proof (cases i)
    case 0
    then show ?thesis by (simp add: last_conv_nth)
  next
    case (Suc j)
    have lb: "length (butlast ?r) = length xs" by (simp del: butlast.simps)
    from Suc "1.prems" have jx: "j < length xs div 2" by simp
    then have j: "j < length (butlast ?r) div 2" unfolding lb .
    from jx have j2: "j < length xs" "length xs - 1 - j < length xs" by linarith+
    from "1.IH"[OF j] have
      "seed_pairs (butlast ?r) ! j = (butlast ?r ! j, butlast ?r ! (length xs - 1 - j))"
      unfolding lb .
    moreover have "butlast ?r ! j = ?r ! j"
      using j2 by (intro nth_butlast) (simp only: lb)
    moreover have "butlast ?r ! (length xs - 1 - j) = ?r ! (length xs - 1 - j)"
      using j2 by (intro nth_butlast) (simp only: lb)
    moreover have "length (h # ?r) - 1 - Suc j = Suc (length xs - 1 - j)"
      using j2 by simp
    ultimately show ?thesis using Suc by (simp del: butlast.simps)
  qed
qed simp_all

lemma build_bracket_range:
  "length (store s) = a + Suc n \<Longrightarrow>
     \<exists>s'. build_bracket [a..<a + Suc n] s = ([a + 2 * n], s') \<and>
          store s' = store s @ replicate n (Match None None) \<and>
          matches s' = matches s @ [a..<a + 2 * n] \<and>
          bracket s' = (\<lambda>m. if a \<le> m \<and> m < a + 2 * n then Some (a + Suc n + (m - a) div 2)
                             else bracket s m) \<and>
          sources s' = (\<lambda>p. if a + Suc n \<le> p \<and> p < a + Suc n + n
                             then Some (a + 2 * (p - (a + Suc n)), a + 2 * (p - (a + Suc n)) + 1)
                             else sources s p) \<and>
          participants s' = participants s \<and> players s' = players s \<and>
          events s' = events s \<and> num_players s' = num_players s \<and>
          field_size s' = field_size s \<and> bracket_rounds s' = bracket_rounds s"
proof (induction n arbitrary: a s)
  case 0
  then show ?case by (auto simp: fun_eq_iff)
next
  case (Suc n)
  let ?m = "length (store s)"
  let ?s1 = "s\<lparr>store := store s @ [Match None None],
              bracket := (bracket s)(a \<mapsto> ?m, Suc a \<mapsto> ?m),
              sources := (sources s)(?m \<mapsto> (a, Suc a)),
              matches := matches s @ [a, Suc a]\<rparr>"
  have q: "[a..<a + Suc (Suc n)] = a # Suc a # [a + 2..<a + Suc (Suc n)]"
    by (simp add: upt_rec[of a] upt_rec[of "Suc a"] del: upt.simps)
  have q': "[a + 2..<a + Suc (Suc n)] @ [?m] = [a + 2..<a + 2 + Suc n]"
    using Suc.prems by simp
  have len1: "length (store ?s1) = a + 2 + Suc n"
    using Suc.prems by simp
  from Suc.IH[OF len1] obtain s' where s':
    "build_bracket [a + 2..<a + 2 + Suc n] ?s1 = ([a + 2 + 2 * n], s')"
    "store s' = store ?s1 @ replicate n (Match None None)"
    "matches s' = matches ?s1 @ [a + 2..<a + 2 + 2 * n]"
    "bracket s' = (\<lambda>m. if a + 2 \<le> m \<and> m < a + 2 + 2 * n then Some (a + 2 + Suc n + (m - (a + 2)) div 2)
                             else bracket ?s1 m)"
    "sources s' = (\<lambda>p. if a + 2 + Suc n \<le> p \<and> p < a + 2 + Suc n + n
                             then Some (a + 2 + 2 * (p - (a + 2 + Suc n)), a + 2 + 2 * (p - (a + 2 + Suc n)) + 1)
                             else sources ?s1 p)"
    "participants s' = participants ?s1" "players s' = players ?s1"
    "events s' = events ?s1" "num_players s' = num_players ?s1"
    "field_size s' = field_size ?s1" "bracket_rounds s' = bracket_rounds ?s1"
    by blast
  have run: "build_bracket [a..<a + Suc (Suc n)] s = ([a + 2 * Suc n], s')"
    unfolding q using s'(1) q' by (simp add: Let_def)
  have st: "store s' = store s @ replicate (Suc n) (Match None None)"
    using s'(2) by (simp add: replicate_append_same)
  have ms: "matches s' = matches s @ [a..<a + 2 * Suc n]"
    using s'(3) by (simp add: upt_rec[of a] upt_rec[of "Suc a"] del: upt.simps)
  have br: "bracket s' = (\<lambda>m. if a \<le> m \<and> m < a + 2 * Suc n then Some (a + Suc (Suc n) + (m - a) div 2)
                             else bracket s m)"
  proof
    fix m
    consider "m < a" | "m = a" | "m = Suc a" | "a + 2 \<le> m" by linarith
    then show "bracket s' m = (if a \<le> m \<and> m < a + 2 * Suc n then Some (a + Suc (Suc n) + (m - a) div 2)
                             else bracket s m)"
    proof cases
      case 4
      then obtain d where d: "m = a + 2 + d" using le_Suc_ex by blast
      show ?thesis unfolding s'(4) using Suc.prems by (simp add: d)
    qed (simp_all add: s'(4) Suc.prems)
  qed
  have sr: "sources s' = (\<lambda>p. if a + Suc (Suc n) \<le> p \<and> p < a + Suc (Suc n) + Suc n
                             then Some (a + 2 * (p - (a + Suc (Suc n))), a + 2 * (p - (a + Suc (Suc n))) + 1)
                             else sources s p)"
  proof
    fix p
    consider "p < ?m" | "p = ?m" | "?m < p" by linarith
    then show "sources s' p = (if a + Suc (Suc n) \<le> p \<and> p < a + Suc (Suc n) + Suc n
                             then Some (a + 2 * (p - (a + Suc (Suc n))), a + 2 * (p - (a + Suc (Suc n))) + 1)
                             else sources s p)"
    proof cases
      case 3
      then obtain d where d: "p = a + Suc (Suc n) + Suc d"
        using Suc.prems less_iff_Suc_add by auto
      show ?thesis unfolding s'(5) using Suc.prems by (simp add: d)
    qed (simp_all add: s'(5) Suc.prems)
  qed
  show ?case
    using run st ms br sr s'(6-) by (intro exI[of _ s']) simp
qed

section \<open>Bye resolution\<close>

lemma report_home_bye:
  assumes "m < length (store s)" "home (store s ! m) = Some h" "away (store s ! m) = Some BY"
    "bracket s m = Some wm" "sources s wm = Some (hs, as)" "wm < length (store s)" "wm \<noteq> m"
  shows "\<exists>s'. report_home m s = Inr s' \<and>
     store s' = (store s)[m := (store s ! m)\<lparr>winner := Some (Won h), loser := Some (Won BY)\<rparr>,
                          wm := (if m = hs then (store s ! wm)\<lparr>home := Some h\<rparr>
                                 else (store s ! wm)\<lparr>away := Some h\<rparr>)] \<and>
     (\<forall>p. tournament_score (players s' p) =
          tournament_score (players s p) + (if p = h then 3 else 0)) \<and>
     bracket s' = bracket s \<and> sources s' = sources s \<and> matches s' = matches s \<and>
     participants s' = participants s \<and> field_size s' = field_size s"
  using assms
  by (auto simp: report_home_def single_report_result_def report_result_def
      handle_match_result_def calc_match_points_def single_process_match_result_def
      Let_def add_score_def trigger_event_def set_current_match_def)

lemma bye_inv_skip:
  assumes inv: "bye_inv ps L k s" and skip: "k < 2 * L - length ps \<Longrightarrow> False"
  shows "bye_inv ps L (Suc k) s"
proof -
  have "i < Suc k \<Longrightarrow> i < 2 * L - length ps \<Longrightarrow> i < k" for i
    using skip by (cases "i = k") auto
  moreover have "(j < Suc k \<and> j < 2 * L - length ps) = (j < k \<and> j < 2 * L - length ps)" for j
    using skip by (cases "j = k") auto
  ultimately show ?thesis using inv unfolding bye_inv_def by simp
qed

lemma bye_step:
  assumes inv: "bye_inv ps L k s" and k: "k < 2 * L - 1" and nby: "BY \<notin> set ps"
    and n2: "2 \<le> length ps" and lo: "L \<le> length ps" and hi: "length ps \<le> 2 * L"
  shows "\<exists>s'. bye_inv ps L (Suc k) s' \<and> (\<forall>ms. resolve_byes (k # ms) s = resolve_byes ms s')"
proof -
  let ?b = "2 * L - length ps"
  from inv have len: "length (store s) = 2 * L - 1"
    and br: "bracket s = (\<lambda>m. if m < 2 * L - 2 then Some (L + m div 2) else None)"
    and sr: "sources s = (\<lambda>p. if L \<le> p \<and> p < 2 * L - 1 then Some (2 * (p - L), 2 * (p - L) + 1)
                        else None)"
    and leaf: "\<And>i. i < L \<Longrightarrow> home (store s ! i) = Some (ps ! i) \<and>
            away (store s ! i) = Some (if i < ?b then BY else ps ! (2 * L - 1 - i))"
    and inner: "\<And>i. L \<le> i \<Longrightarrow> i < 2 * L - 1 \<Longrightarrow> away (store s ! i) \<noteq> Some BY"
    and won: "\<And>i. i < k \<Longrightarrow> i < ?b \<Longrightarrow> winner (store s ! i) = Some (Won (ps ! i))"
    and sc: "\<And>j. distinct ps \<Longrightarrow> j < length ps \<Longrightarrow>
        tournament_score (players s (ps ! j)) = (if j < k \<and> j < ?b then 3 else 0)"
    unfolding bye_inv_def by blast+
  consider (bye) "k < ?b" | (real) "?b \<le> k" "k < L" | (inner) "L \<le> k" by linarith
  then show ?thesis
  proof cases
    case bye
    let ?wm = "L + k div 2"
    from bye lo n2 have kL: "k < L" "2 \<le> L" by linarith+
    have wm: "?wm < 2 * L - 1" "?wm \<noteq> k" "L \<le> ?wm" using kL by linarith+
    have kn: "k < length ps" using kL lo by linarith
    have h: "home (store s ! k) = Some (ps ! k)" and a: "away (store s ! k) = Some BY"
      using leaf[OF kL(1)] bye by simp_all
    have bk: "bracket s k = Some ?wm" using kL by (simp add: br)
    have sk: "sources s ?wm = Some (2 * (k div 2), 2 * (k div 2) + 1)"
      using wm by (simp add: sr)
    from report_home_bye[OF _ h a bk sk _ wm(2)] len wm k
    obtain s' where s': "report_home k s = Inr s'"
      "store s' = (store s)[k := (store s ! k)\<lparr>winner := Some (Won (ps ! k)), loser := Some (Won BY)\<rparr>,
                          ?wm := (if k = 2 * (k div 2) then (store s ! ?wm)\<lparr>home := Some (ps ! k)\<rparr>
                                 else (store s ! ?wm)\<lparr>away := Some (ps ! k)\<rparr>)]"
      "\<And>p. tournament_score (players s' p) =
          tournament_score (players s p) + (if p = ps ! k then 3 else 0)"
      "bracket s' = bracket s" "sources s' = sources s" "matches s' = matches s"
      "participants s' = participants s" "field_size s' = field_size s"
      by auto
    have pk: "ps ! k \<noteq> BY" using kn nby by (metis nth_mem)
    have run: "resolve_byes (k # ms) s = resolve_byes ms s'" for ms
      using a s'(1) by simp
    have 1: "length (store s') = 2 * L - 1" using s'(2) len by simp
    have 2: "home (store s' ! i) = Some (ps ! i) \<and>
            away (store s' ! i) = Some (if i < ?b then BY else ps ! (2 * L - 1 - i))" if "i < L" for i
      using leaf[OF that] that wm len k by (cases "i = k") (simp_all add: s'(2))
    have 3: "away (store s' ! i) \<noteq> Some BY" if "L \<le> i" "i < 2 * L - 1" for i
      using inner[OF that] that kL len pk by (cases "i = ?wm") (simp_all add: s'(2))
    have 4: "winner (store s' ! i) = Some (Won (ps ! i))" if "i < Suc k" "i < ?b" for i
    proof (cases "i = k")
      case True
      then show ?thesis using wm len k by (simp add: s'(2))
    next
      case False
      with that have "i < k" by simp
      from won[OF this that(2)] False \<open>i < k\<close> kL len show ?thesis by (simp add: s'(2))
    qed
    have 5: "tournament_score (players s' (ps ! j)) = (if j < Suc k \<and> j < ?b then 3 else 0)"
      if "distinct ps" "j < length ps" for j
    proof -
      have "(ps ! j = ps ! k) = (j = k)"
        using that kn by (simp add: nth_eq_iff_index_eq)
      then show ?thesis using sc[OF that] bye by (auto simp: s'(3))
    qed
    have "bye_inv ps L (Suc k) s'"
      unfolding bye_inv_def using inv 1 2 3 4 5 s'(4-)
      by (simp add: bye_inv_def)
    with run show ?thesis by blast
  next
    case real
    have "2 * L - 1 - k < length ps" using real n2 by linarith
    then have "ps ! (2 * L - 1 - k) \<noteq> BY" using nby by (metis nth_mem)
    with leaf[OF real(2)] real(1) have "away (store s ! k) \<noteq> Some BY" by simp
    then have "resolve_byes (k # ms) s = resolve_byes ms s" for ms by simp
    moreover have "bye_inv ps L (Suc k) s"
      using inv real(1) by (intro bye_inv_skip) simp_all
    ultimately show ?thesis by blast
  next
    case inner
    from inner(1) k have "away (store s ! k) \<noteq> Some BY" by (intro \<open>\<And>i. L \<le> i \<Longrightarrow> i < 2 * L - 1 \<Longrightarrow> away (store s ! i) \<noteq> Some BY\<close>)
    then have "resolve_byes (k # ms) s = resolve_byes ms s" for ms by simp
    moreover have "bye_inv ps L (Suc k) s"
      using inv inner lo by (intro bye_inv_skip) simp_all
    ultimately show ?thesis by blast
  qed
qed

lemma resolve_byes_inv:
  assumes nby: "BY \<notin> set ps" and n2: "2 \<le> length ps"
    and lo: "L \<le> length ps" and hi: "length ps \<le> 2 * L"
  shows "bye_inv ps L k s \<Longrightarrow> k \<le> 2 * L - 1 \<Longrightarrow>
     \<exists>s'. resolve_byes [k..<2 * L - 1] s = Inr s' \<and> bye_inv ps L (2 * L - 1) s'"
proof (induction "2 * L - 1 - k" arbitrary: k s)
  case 0
  then have "k = 2 * L - 1" by simp
  with 0 show ?case by simp
next
  case (Suc d)
  then have k: "k < 2 * L - 1" by simp
  from bye_step[OF Suc.prems(1) k nby n2 lo hi] obtain s1 where
    s1: "bye_inv ps L (Suc k) s1" "\<And>ms. resolve_byes (k # ms) s = resolve_byes ms s1"
    by blast
  from Suc.hyps(2) have d: "d = 2 * L - 1 - Suc k" by simp
  from Suc.hyps(1)[OF d s1(1)] k obtain s' where
    "resolve_byes [Suc k..<2 * L - 1] s1 = Inr s'" "bye_inv ps L (2 * L - 1) s'" by auto
  moreover have "[k..<2 * L - 1] = k # [Suc k..<2 * L - 1]"
    using k by (simp add: upt_rec[of k] del: upt.simps)
  ultimately show ?case using s1(2) by auto
qed

lemma single_start_inv:
  assumes n2: "2 \<le> length ps" and nby: "BY \<notin> set ps"
    and ge: "length ps \<le> 2 ^ ceil_log (length ps)"
    and le: "2 ^ ceil_log (length ps) \<le> 2 * length ps"
    and L: "L = 2 ^ (ceil_log (length ps) - 1)"
  shows "2 * L = 2 ^ ceil_log (length ps) \<and> 0 < L \<and> L \<le> length ps \<and> length ps \<le> 2 * L \<and>
     (\<exists>s'. single_start ceil_log (SingleEliminationTournament ps pl) = Inr s' \<and>
           bye_inv ps L (2 * L - 1) s')"
proof -
  let ?n = "length ps"
  let ?r = "ceil_log ?n"
  let ?F = "(2::nat) ^ ?r"
  have "?r \<noteq> 0"
  proof
    assume "?r = 0"
    with ge n2 show False by simp
  qed
  then obtain c where c: "?r = Suc c" by (cases ?r) auto
  have F: "?F = 2 * L" using L c by simp
  have hi: "?n \<le> 2 * L" using ge F by simp
  have lo: "L \<le> ?n" using le F by simp
  have Lpos: "0 < L" using L by simp
  define q where "q = ps @ replicate (?F - ?n) BY"
  have lq: "length q = 2 * L" using hi F by (simp add: q_def)
  let ?s0 = "trigger_event on_start
       ((SingleEliminationTournament ps pl)\<lparr>num_players := Some ?n,
          players := reset_scores ps pl\<rparr>)"
  let ?s1 = "?s0\<lparr>bracket_rounds := Some ?r, field_size := Some ?F\<rparr>"
  have s1: "store ?s1 = []" "matches ?s1 = []" "participants ?s1 = ps"
    "num_players ?s1 = Some ?n" "bracket ?s1 = Map.empty" "sources ?s1 = Map.empty"
    "field_size ?s1 = Some ?F" "players ?s1 = reset_scores ps pl"
    by (simp_all add: trigger_event_def SingleEliminationTournament_def)
  have ev: "even (length q)" unfolding lq by simp
  have half: "length q div 2 = L" unfolding lq by simp
  from seed_matches_even[OF ev, of "[]" ?s1] obtain s2 where s2:
    "seed_matches q [] ?s1 = Inr ([0..<L], s2)"
    "store s2 = map (\<lambda>(h, a). Match (Some h) (Some a)) (seed_pairs q)"
    "matches s2 = []" "participants s2 = ps" "bracket s2 = Map.empty"
    "sources s2 = Map.empty" "field_size s2 = Some ?F"
    "\<And>p. tournament_score (players s2 p) = tournament_score (reset_scores ps pl p)"
    unfolding half s1 by auto
  have s2run: "seed_matches (ps @ replicate (?F - ?n) BY) [] ?s1 = Inr ([0..<L], s2)"
    using s2(1) unfolding q_def .
  have ls2: "length (store s2) = 0 + Suc (L - 1)"
    using s2(2) lq Lpos by (simp add: seed_pairs_length)
  have upL: "[0..<L] = [0..<0 + Suc (L - 1)]" using Lpos by simp
  from build_bracket_range[OF ls2] obtain s3 where s3:
    "build_bracket [0..<L] s2 = ([2 * (L - 1)], s3)"
    "store s3 = store s2 @ replicate (L - 1) (Match None None)"
    "matches s3 = matches s2 @ [0..<2 * (L - 1)]"
    "bracket s3 = (\<lambda>m. if 0 \<le> m \<and> m < 0 + 2 * (L - 1) then Some (0 + Suc (L - 1) + (m - 0) div 2)
                             else bracket s2 m)"
    "sources s3 = (\<lambda>p. if 0 + Suc (L - 1) \<le> p \<and> p < 0 + Suc (L - 1) + (L - 1)
                             then Some (0 + 2 * (p - (0 + Suc (L - 1))), 0 + 2 * (p - (0 + Suc (L - 1))) + 1)
                             else sources s2 p)"
    "participants s3 = participants s2" "players s3 = players s2"
    "field_size s3 = field_size s2"
    unfolding upL by (auto simp del: upt.simps)
  let ?s4 = "s3\<lparr>matches := matches s3 @ [2 * (L - 1)]\<rparr>"
  have m4: "matches ?s4 = [0..<2 * L - 1]"
  proof -
    have "2 * L - 1 = Suc (2 * (L - 1))" using Lpos by simp
    then show ?thesis using s3(3) s2(3) by simp
  qed
  have c0: "participants (SingleEliminationTournament ps pl) = ps"
    "players (SingleEliminationTournament ps pl) = pl"
    by (simp_all add: SingleEliminationTournament_def)
  have s0: "num_players ?s0 = Some ?n" "participants ?s0 = ps"
    by (simp_all add: trigger_event_def SingleEliminationTournament_def)
  have ne: "ps \<noteq> []" using n2 by auto
  have run: "single_start ceil_log (SingleEliminationTournament ps pl) =
      resolve_byes [0..<2 * L - 1] ?s4"
    using ne m4
    by (simp add: single_start_def start_def single_seed_players_def c0 s0 Let_def s2run s3(1)
        del: upt.simps)
  have qi: "q ! i = ps ! i" if "i < L" for i
    using that lo by (simp add: nth_append q_def)
  have qj: "q ! (2 * L - 1 - i) = (if i < 2 * L - ?n then BY else ps ! (2 * L - 1 - i))"
    if "i < L" for i
    using that lo hi F by (auto simp: nth_append q_def)
  have leaf: "home (store ?s4 ! i) = Some (ps ! i) \<and>
      away (store ?s4 ! i) = Some (if i < 2 * L - ?n then BY else ps ! (2 * L - 1 - i))"
    if "i < L" for i
  proof -
    have "store ?s4 ! i = store s2 ! i"
      using that ls2 by (simp add: s3(2) nth_append)
    also have "\<dots> = (\<lambda>(h, a). Match (Some h) (Some a)) (seed_pairs q ! i)"
      using that lq by (simp add: s2(2) seed_pairs_length)
    also have "seed_pairs q ! i = (q ! i, q ! (length q - 1 - i))"
      using that lq by (intro seed_pairs_nth) simp
    finally show ?thesis
      using qi[OF that] qj[OF that] by (simp add: lq Match_def)
  qed
  have inner: "away (store ?s4 ! i) \<noteq> Some BY" if "L \<le> i" "i < 2 * L - 1" for i
    using that ls2 by (simp add: s3(2) nth_append Match_def)
  have sc: "tournament_score (players ?s4 (ps ! j)) = 0" if "j < ?n" for j
    using that by (simp add: s3(7) s2(8) reset_scores_zero)
  have br: "bracket ?s4 = (\<lambda>m. if m < 2 * L - 2 then Some (L + m div 2) else None)"
    using Lpos by (auto simp: s3(4) s2(5) fun_eq_iff)
  have sr: "sources ?s4 = (\<lambda>p. if L \<le> p \<and> p < 2 * L - 1 then Some (2 * (p - L), 2 * (p - L) + 1)
                        else None)"
    using Lpos by (auto simp: s3(5) s2(6) fun_eq_iff)
  have "bye_inv ps L 0 ?s4"
    unfolding bye_inv_def
    using m4 leaf inner sc br sr ls2 Lpos
    by (simp add: s3(2) s3(6) s3(8) s2(4) s2(7) F)
  from resolve_byes_inv[OF nby n2 lo hi this] obtain s' where
    "resolve_byes [0..<2 * L - 1] ?s4 = Inr s'" "bye_inv ps L (2 * L - 1) s'"
    by auto
  with run F Lpos lo hi show ?thesis by auto
qed

lemma seeding_structure:
  assumes "2 \<le> length ps" and "BY \<notin> set ps"
    and "length ps \<le> 2 ^ ceil_log (length ps)"
    and "2 ^ ceil_log (length ps) \<le> 2 * length ps"
  shows "\<exists>s' F. single_start ceil_log (SingleEliminationTournament ps pl) = Inr s' \<and>
     field_size s' = Some F \<and> F = 2 ^ ceil_log (length ps) \<and>
     matches s' = [0..<F - 1] \<and> length (store s') = F - 1 \<and>
     (\<forall>i<F div 2.
        home (store s' ! i) = Some ((ps @ replicate (F - length ps) BY) ! i) \<and>
        away (store s' ! i) = Some ((ps @ replicate (F - length ps) BY) ! (F - 1 - i))) \<and>
     dom (sources s') = {F div 2..<F - 1} \<and>
     {m \<in> set (matches s'). bracket s' m = None} = {F - 2}"
proof -
  define L :: nat where "L = 2 ^ (ceil_log (length ps) - 1)"
  from single_start_inv[where ceil_log = ceil_log and pl = pl, OF assms L_def] obtain s' where
    F: "2 * L = 2 ^ ceil_log (length ps)" and Lpos: "0 < L"
    and lo: "L \<le> length ps" and hi: "length ps \<le> 2 * L"
    and run: "single_start ceil_log (SingleEliminationTournament ps pl) = Inr s'"
    and inv: "bye_inv ps L (2 * L - 1) s'"
    by blast
  from inv have fs: "field_size s' = Some (2 * L)" and ms: "matches s' = [0..<2 * L - 1]"
    and len: "length (store s') = 2 * L - 1"
    and br: "bracket s' = (\<lambda>m. if m < 2 * L - 2 then Some (L + m div 2) else None)"
    and sr: "sources s' = (\<lambda>p. if L \<le> p \<and> p < 2 * L - 1 then Some (2 * (p - L), 2 * (p - L) + 1)
                        else None)"
    and leaf: "\<And>i. i < L \<Longrightarrow> home (store s' ! i) = Some (ps ! i) \<and>
            away (store s' ! i) = Some (if i < 2 * L - length ps then BY else ps ! (2 * L - 1 - i))"
    unfolding bye_inv_def by blast+
  have slots: "home (store s' ! i) = Some ((ps @ replicate (2 * L - length ps) BY) ! i) \<and>
        away (store s' ! i) = Some ((ps @ replicate (2 * L - length ps) BY) ! (2 * L - 1 - i))"
    if "i < L" for i
    using leaf[OF that] that lo hi by (auto simp: nth_append)
  have dm: "dom (sources s') = {L..<2 * L - 1}"
    by (auto simp: sr dom_def)
  have final: "{m \<in> set (matches s'). bracket s' m = None} = {2 * L - 2}"
    using Lpos by (auto simp: ms br)
  show ?thesis
    using run fs F[symmetric] ms len slots dm final
    by (intro exI[of _ s'] exI[of _ "2 * L"]) simp
qed

text \<open>
  Where the floating-point logarithm is exact, the field is the least power of two
  that holds the participants, and the bracket is as above.
\<close>

lemma seeding_structure_exact:
  assumes "2 \<le> length ps" and "BY \<notin> set ps"
    and "ceil_log (length ps) = ceil_log2 (length ps)"
  shows "\<exists>s' F. single_start ceil_log (SingleEliminationTournament ps pl) = Inr s' \<and>
     field_size s' = Some F \<and> F = 2 ^ ceil_log2 (length ps) \<and>
     length ps \<le> F \<and> (\<forall>k. length ps \<le> 2 ^ k \<longrightarrow> F \<le> 2 ^ k) \<and>
     matches s' = [0..<F - 1] \<and> length (store s') = F - 1 \<and>
     (\<forall>i<F div 2.
        home (store s' ! i) = Some ((ps @ replicate (F - length ps) BY) ! i) \<and>
        away (store s' ! i) = Some ((ps @ replicate (F - length ps) BY) ! (F - 1 - i))) \<and>
     dom (sources s') = {F div 2..<F - 1} \<and>
     {m \<in> set (matches s'). bracket s' m = None} = {F - 2}"
proof -
  have ge: "length ps \<le> 2 ^ ceil_log (length ps)"
    using ceil_log2_le[of "length ps"] assms(3) by simp
  have le: "2 ^ ceil_log (length ps) \<le> 2 * length ps"
    using ceil_log2_lt[OF assms(1)] assms(3) by simp
  have least: "(2::nat) ^ ceil_log2 (length ps) \<le> 2 ^ k" if "length ps \<le> 2 ^ k" for k
    using ceil_log2_least[OF that] by (intro power_increasing) simp_all
  from seeding_structure[where ceil_log = ceil_log and pl = pl, OF assms(1,2) ge le]
  obtain s' F where
    "single_start ceil_log (SingleEliminationTournament ps pl) = Inr s'"
    "field_size s' = Some F" "F = 2 ^ ceil_log (length ps)"
    "matches s' = [0..<F - 1]" "length (store s') = F - 1"
    "\<forall>i<F div 2.
        home (store s' ! i) = Some ((ps @ replicate (F - length ps) BY) ! i) \<and>
        away (store s' ! i) = Some ((ps @ replicate (F - length ps) BY) ! (F - 1 - i))"
    "dom (sources s') = {F div 2..<F - 1}"
    "{m \<in> set (matches s'). bracket s' m = None} = {F - 2}"
    by blast
  moreover from this(3) have "F = 2 ^ ceil_log2 (length ps)" using assms(3) by simp
  moreover from this have "length ps \<le> F" "\<forall>k. length ps \<le> 2 ^ k \<longrightarrow> F \<le> 2 ^ k"
    using ceil_log2_le[of "length ps"] least by simp_all
  ultimately show ?thesis by blast
qed

lemma numbered_facts:
  "length (numbered n) = n" "BY \<notin> set (numbered n)" "distinct (numbered n)"
  by (auto simp: numbered_def BY_def distinct_map inj_on_def)

text \<open>
  C4 fails in the code for \<open>2 ^ 29\<close> participants. \<^verbatim>\<open>math.log(2**29, 2)\<close> evaluates to
  29.000000000000004, so 30 rounds are computed; \<^verbatim>\<open>start\<close> then returns with a field
  of \<open>2 ^ 30\<close>, twice the least power of two that holds the participants, and builds
  the bracket of \<open>2 ^ 30 - 1\<close> matches for it.
\<close>

theorem field_size_doubled_at_2_29:
  "\<not> isl (single_start (\<lambda>n. 30) (SingleEliminationTournament (numbered (2 ^ 29)) fresh)) \<and>
   field_size (state_of
     (single_start (\<lambda>n. 30) (SingleEliminationTournament (numbered (2 ^ 29)) fresh))) =
     Some (2 ^ 30) \<and>
   length (matches (state_of
     (single_start (\<lambda>n. 30) (SingleEliminationTournament (numbered (2 ^ 29)) fresh)))) =
     2 ^ 30 - 1 \<and>
   length (numbered (2 ^ 29)) = 2 ^ 29 \<and> (2::nat) ^ 29 < 2 ^ 30"
proof -
  have h1: "2 \<le> length (numbered (2 ^ 29))" by (simp only: numbered_facts) simp
  have h3: "length (numbered (2 ^ 29)) \<le> 2 ^ (\<lambda>n. 30) (length (numbered (2 ^ 29)))"
    by (simp only: numbered_facts) simp
  have h4: "2 ^ (\<lambda>n. 30) (length (numbered (2 ^ 29))) \<le> 2 * length (numbered (2 ^ 29))"
    by (simp only: numbered_facts) simp
  from seeding_structure[where ceil_log = "\<lambda>n. 30" and pl = fresh, OF h1 numbered_facts(2) h3 h4]
  obtain s' F where
    s': "single_start (\<lambda>n. 30) (SingleEliminationTournament (numbered (2 ^ 29)) fresh) = Inr s'"
    "field_size s' = Some F" "F = 2 ^ 30" "matches s' = [0..<F - 1]"
    by auto
  have "length (matches s') = 2 ^ 30 - 1" by (simp only: s'(3,4) length_upt diff_zero)
  moreover have "(2::nat) ^ 29 < 2 ^ 30" by simp
  ultimately show ?thesis
    by (simp only: s' numbered_facts sum.disc state_of_simps not_False_eq_True simp_thms)
qed

text \<open>
  C5. For two or more participants, none of them carrying the id of the bye, and a
  computed field that holds them and is at most twice their number (so it is where the
  floating-point logarithm is exact, and also where it is one too large at a power of
  two): after \<^verbatim>\<open>start\<close> the matches with the bye in the away slot are the first
  \<^verbatim>\<open>field_size\<close> - N matches of the list, and each of them, first-round match or
  placeholder, is completed with its home participant as winner.
\<close>

theorem byes_completed_in_seeding:
  assumes "2 \<le> length ps" and "BY \<notin> set ps"
    and "length ps \<le> 2 ^ ceil_log (length ps)"
    and "2 ^ ceil_log (length ps) \<le> 2 * length ps"
  shows "\<exists>s' F. single_start ceil_log (SingleEliminationTournament ps pl) = Inr s' \<and>
     field_size s' = Some F \<and> F = 2 ^ ceil_log (length ps) \<and>
     {m \<in> set (matches s'). away (store s' ! m) = Some BY} = {0..<F - length ps} \<and>
     (\<forall>m \<in> set (matches s'). away (store s' ! m) = Some BY \<longrightarrow>
        (\<exists>h. home (store s' ! m) = Some h \<and> winner (store s' ! m) = Some (Won h)))"
proof -
  define L :: nat where "L = 2 ^ (ceil_log (length ps) - 1)"
  from single_start_inv[where ceil_log = ceil_log and pl = pl, OF assms L_def] obtain s' where
    F: "2 * L = 2 ^ ceil_log (length ps)" and Lpos: "0 < L"
    and lo: "L \<le> length ps" and hi: "length ps \<le> 2 * L"
    and run: "single_start ceil_log (SingleEliminationTournament ps pl) = Inr s'"
    and inv: "bye_inv ps L (2 * L - 1) s'"
    by blast
  from inv have fs: "field_size s' = Some (2 * L)" and ms: "matches s' = [0..<2 * L - 1]"
    and leaf: "\<And>i. i < L \<Longrightarrow> home (store s' ! i) = Some (ps ! i) \<and>
            away (store s' ! i) = Some (if i < 2 * L - length ps then BY else ps ! (2 * L - 1 - i))"
    and inner: "\<And>i. L \<le> i \<Longrightarrow> i < 2 * L - 1 \<Longrightarrow> away (store s' ! i) \<noteq> Some BY"
    and won: "\<And>i. i < 2 * L - 1 \<Longrightarrow> i < 2 * L - length ps \<Longrightarrow>
        winner (store s' ! i) = Some (Won (ps ! i))"
    unfolding bye_inv_def by blast+
  have iff: "away (store s' ! m) = Some BY \<longleftrightarrow> m < 2 * L - length ps" if "m < 2 * L - 1" for m
  proof (cases "m < L")
    case True
    have "ps ! (2 * L - 1 - m) \<noteq> BY" if "\<not> m < 2 * L - length ps"
    proof -
      have "2 * L - 1 - m < length ps" using that assms(1) by linarith
      then show ?thesis using assms(2) by (metis nth_mem)
    qed
    with leaf[OF True] show ?thesis by auto
  next
    case False
    with inner[of m] that lo show ?thesis by auto
  qed
  have a: "{m \<in> set (matches s'). away (store s' ! m) = Some BY} = {0..<2 * L - length ps}"
    using iff lo Lpos by (auto simp: ms)
  have b: "\<exists>h. home (store s' ! m) = Some h \<and> winner (store s' ! m) = Some (Won h)"
    if "m \<in> set (matches s')" "away (store s' ! m) = Some BY" for m
  proof -
    from that(1) have m: "m < 2 * L - 1" by (simp add: ms)
    with iff that(2) have mb: "m < 2 * L - length ps" by simp
    then have "m < L" using lo by linarith
    from leaf[OF this] won[OF m mb] show ?thesis by simp
  qed
  show ?thesis
    using run fs F[symmetric] a b by (intro exI[of _ s'] exI[of _ "2 * L"]) simp
qed

text \<open>
  Five participants, three rounds: the three bye matches are completed for their home
  participants; match 4, fed by two of them, holds the two winners and is active, not
  completed.
\<close>

theorem byes_completed_in_seeding_witness:
  "2 \<le> length [''1'', ''2'', ''3'', ''4'', ''5''] \<and>
   BY \<notin> set [''1'', ''2'', ''3'', ''4'', ''5''] \<and>
   length [''1'', ''2'', ''3'', ''4'', ''5''] \<le>
     2 ^ ceil_log2 (length [''1'', ''2'', ''3'', ''4'', ''5'']) \<and>
   2 ^ ceil_log2 (length [''1'', ''2'', ''3'', ''4'', ''5'']) \<le>
     2 * length [''1'', ''2'', ''3'', ''4'', ''5''] \<and>
   (case single_start ceil_log2
           (SingleEliminationTournament [''1'', ''2'', ''3'', ''4'', ''5''] fresh) of
      Inl e \<Rightarrow> None
    | Inr s' \<Rightarrow>
        Some (field_size s', pairs s', map (\<lambda>m. winner (store s' ! m)) (matches s'),
              active_matches s')) =
   Some (Some 8,
         [(Some ''1'', Some BY), (Some ''2'', Some BY), (Some ''3'', Some BY),
          (Some ''4'', Some ''5''), (Some ''1'', Some ''2''), (Some ''3'', None), (None, None)],
         [Some (Won ''1''), Some (Won ''2''), Some (Won ''3''), None, None, None, None],
         [3, 4])"
proof -
  have h1: "2 \<le> length [''1'', ''2'', ''3'', ''4'', ''5'']" by simp
  have h2: "BY \<notin> set [''1'', ''2'', ''3'', ''4'', ''5'']" by (simp add: BY_def)
  have h3: "length [''1'', ''2'', ''3'', ''4'', ''5''] \<le>
     2 ^ ceil_log2 (length [''1'', ''2'', ''3'', ''4'', ''5''])"
    by (rule ceil_log2_le)
  have h4: "2 ^ ceil_log2 (length [''1'', ''2'', ''3'', ''4'', ''5'']) \<le>
     2 * length [''1'', ''2'', ''3'', ''4'', ''5'']"
    using ceil_log2_lt[OF h1] by simp
  have ev: "(case single_start ceil_log2
           (SingleEliminationTournament [''1'', ''2'', ''3'', ''4'', ''5''] fresh) of
      Inl e \<Rightarrow> None
    | Inr s' \<Rightarrow>
        Some (field_size s', pairs s', map (\<lambda>m. winner (store s' ! m)) (matches s'),
              active_matches s')) =
   Some (Some 8,
         [(Some ''1'', Some BY), (Some ''2'', Some BY), (Some ''3'', Some BY),
          (Some ''4'', Some ''5''), (Some ''1'', Some ''2''), (Some ''3'', None), (None, None)],
         [Some (Won ''1''), Some (Won ''2''), Some (Won ''3''), None, None, None, None],
         [3, 4])"
    by code_simp
  from byes_completed_in_seeding[where ceil_log = ceil_log2 and pl = fresh, OF h1 h2 h3 h4]
    h1 h2 h3 h4 ev
  show ?thesis by blast
qed

text \<open>
  C10. For two or more distinct participants, none of them carrying the id of the bye,
  and a computed field that holds them and is at most twice their number: after
  \<^verbatim>\<open>start\<close> each of the first \<^verbatim>\<open>field_size\<close> - N participants has won its bye match
  and has 3 points, and every other participant has 0: a bye win is scored like any
  win, during seeding.
\<close>

theorem bye_winners_scored:
  assumes "2 \<le> length ps" and "BY \<notin> set ps" and "distinct ps"
    and "length ps \<le> 2 ^ ceil_log (length ps)"
    and "2 ^ ceil_log (length ps) \<le> 2 * length ps"
  shows "\<exists>s' F. single_start ceil_log (SingleEliminationTournament ps pl) = Inr s' \<and>
     field_size s' = Some F \<and> F = 2 ^ ceil_log (length ps) \<and>
     (\<forall>j<F - length ps.
        home (store s' ! j) = Some (ps ! j) \<and> away (store s' ! j) = Some BY \<and>
        winner (store s' ! j) = Some (Won (ps ! j))) \<and>
     (\<forall>j<length ps.
        tournament_score (players s' (ps ! j)) = (if j < F - length ps then 3 else 0))"
proof -
  define L :: nat where "L = 2 ^ (ceil_log (length ps) - 1)"
  from single_start_inv[where ceil_log = ceil_log and pl = pl, OF assms(1,2,4,5) L_def] obtain s' where
    F: "2 * L = 2 ^ ceil_log (length ps)" and Lpos: "0 < L"
    and lo: "L \<le> length ps" and hi: "length ps \<le> 2 * L"
    and run: "single_start ceil_log (SingleEliminationTournament ps pl) = Inr s'"
    and inv: "bye_inv ps L (2 * L - 1) s'"
    by blast
  from inv assms(3) have fs: "field_size s' = Some (2 * L)"
    and leaf: "\<And>i. i < L \<Longrightarrow> home (store s' ! i) = Some (ps ! i) \<and>
            away (store s' ! i) = Some (if i < 2 * L - length ps then BY else ps ! (2 * L - 1 - i))"
    and won: "\<And>i. i < 2 * L - 1 \<Longrightarrow> i < 2 * L - length ps \<Longrightarrow>
        winner (store s' ! i) = Some (Won (ps ! i))"
    and sc: "\<And>j. j < length ps \<Longrightarrow> tournament_score (players s' (ps ! j)) =
           (if j < 2 * L - 1 \<and> j < 2 * L - length ps then 3 else 0)"
    unfolding bye_inv_def by blast+
  have a: "home (store s' ! j) = Some (ps ! j) \<and> away (store s' ! j) = Some BY \<and>
        winner (store s' ! j) = Some (Won (ps ! j))" if "j < 2 * L - length ps" for j
  proof -
    from that lo assms(1) have "j < L" "j < 2 * L - 1" by linarith+
    from leaf[OF this(1)] won[OF this(2) that] that show ?thesis by simp
  qed
  have b: "tournament_score (players s' (ps ! j)) = (if j < 2 * L - length ps then 3 else 0)"
    if "j < length ps" for j
  proof -
    have "(j < 2 * L - 1 \<and> j < 2 * L - length ps) = (j < 2 * L - length ps)"
      using lo assms(1) by linarith
    with sc[OF that] show ?thesis by simp
  qed
  show ?thesis
    using run fs F[symmetric] a b by (intro exI[of _ s'] exI[of _ "2 * L"]) simp
qed

theorem bye_winners_scored_witness:
  "2 \<le> length [''1'', ''2'', ''3''] \<and> BY \<notin> set [''1'', ''2'', ''3''] \<and>
   distinct [''1'', ''2'', ''3''] \<and>
   length [''1'', ''2'', ''3''] \<le> 2 ^ ceil_log2 (length [''1'', ''2'', ''3'']) \<and>
   2 ^ ceil_log2 (length [''1'', ''2'', ''3'']) \<le> 2 * length [''1'', ''2'', ''3''] \<and>
   (\<exists>s'. single_start ceil_log2 (SingleEliminationTournament [''1'', ''2'', ''3''] fresh) = Inr s' \<and>
      map (\<lambda>p. tournament_score (players s' p)) [''1'', ''2'', ''3''] = [3, 0, 0] \<and>
      events s' = [on_start, on_match_ready 0, on_match_ready 1, on_match_complete 0])"
proof -
  have h1: "2 \<le> length [''1'', ''2'', ''3'']" by simp
  have h2: "BY \<notin> set [''1'', ''2'', ''3'']" by (simp add: BY_def)
  have h3: "distinct [''1'', ''2'', ''3'']" by simp
  have h4: "length [''1'', ''2'', ''3''] \<le> 2 ^ ceil_log2 (length [''1'', ''2'', ''3''])"
    by (rule ceil_log2_le)
  have h5: "2 ^ ceil_log2 (length [''1'', ''2'', ''3'']) \<le> 2 * length [''1'', ''2'', ''3'']"
    using ceil_log2_lt[OF h1] by simp
  have ev: "\<exists>s'. single_start ceil_log2 (SingleEliminationTournament [''1'', ''2'', ''3''] fresh) = Inr s' \<and>
      map (\<lambda>p. tournament_score (players s' p)) [''1'', ''2'', ''3''] = [3, 0, 0] \<and>
      events s' = [on_start, on_match_ready 0, on_match_ready 1, on_match_complete 0]"
    by (simp add: single_defs)
  from bye_winners_scored[where ceil_log = ceil_log2 and pl = fresh, OF h1 h2 h3 h4 h5]
    h1 h2 h3 h4 h5 ev
  show ?thesis by blast
qed

section \<open>Advancement in the bracket\<close>




end
